theory Spec2Isabelle
  imports Complex_Main "HOL-Library.Word"
begin

unbundle bit_operations_syntax

section \<open>Common conventions\<close>

text \<open>
  Python integers are unbounded and are modelled as \<open>int\<close>; the elements of a
  \<open>bytes\<close> or \<open>bytearray\<close> object are 8-bit words, read as integers with \<open>uint\<close>
  where the source computes with them. Every exception a modelled function can raise is
  a value of \<open>py_error\<close>, returned as \<open>Inl\<close>.
\<close>

type_synonym byte = "8 word"
type_synonym bytes = "byte list"

datatype py_error =
    IndexError
  | ValueError
  | StopIteration
  | RuntimeError string
  | BrokenPipeError
  | ConnectionResetError
  | OSError
  | OverflowError

section \<open>The continuity splicer: \<open>scripts/ts_joiner.py\<close>\<close>

definition TS_PACKET_SIZE :: nat where
  "TS_PACKET_SIZE = 188"

definition PTS_MASK :: int where
  "PTS_MASK = push_bit 33 1 - 1"

text \<open>
  \<open>decode_pts\<close> indexes \<open>data[0]\<close> to \<open>data[4]\<close>; on a shorter argument the first
  index out of range raises \<open>IndexError\<close>.
\<close>

definition decode_pts :: "bytes \<Rightarrow> py_error + int" where
  "decode_pts data =
     (if length data < 5 then Inl IndexError
      else Inr (push_bit 30 (drop_bit 1 (uint (data ! 0)) AND 0x07)
                OR push_bit 22 (uint (data ! 1))
                OR push_bit 15 (drop_bit 1 (uint (data ! 2)) AND 0x7F)
                OR push_bit 7 (uint (data ! 3))
                OR (drop_bit 1 (uint (data ! 4)) AND 0x7F)))"

text \<open>
  The five integers \<open>b0\<close> to \<open>b4\<close> of \<open>encode_pts\<close>, before \<open>bytes([...])\<close> turns
  them into a byte string. \<open>bytes\<close> raises \<open>ValueError\<close> on an element outside
  \<open>range(256)\<close>; \<open>encode_pts_ints_range\<close> below shows that this cannot happen, so
  the conversion with \<open>word_of_int\<close> is exact.
\<close>

definition encode_pts_ints :: "int \<Rightarrow> int list" where
  "encode_pts_ints v =
     (let pts = v AND (push_bit 33 1 - 1);
          b0 = push_bit 1 (push_bit 4 0x2 OR (drop_bit 30 pts AND 0x07)) OR 0x01;
          b1 = drop_bit 22 pts AND 0xFF;
          b2 = (push_bit 1 (drop_bit 15 pts AND 0x7F) OR 0x01) AND 0xFF;
          b3 = drop_bit 7 pts AND 0xFF;
          b4 = (push_bit 1 (pts AND 0x7F) OR 0x01) AND 0xFF
      in [b0, b1, b2, b3, b4])"

definition encode_pts :: "int \<Rightarrow> bytes" where
  "encode_pts v = map word_of_int (encode_pts_ints v)"

definition stream_is_media :: "int \<Rightarrow> bool" where
  "stream_is_media stream_id =
     ((0xC0 \<le> stream_id \<and> stream_id \<le> 0xDF) \<or> (0xE0 \<le> stream_id \<and> stream_id \<le> 0xEF))"

text \<open>
  \<open>extract_pts\<close> returns \<open>None\<close> (here \<open>Inr None\<close>) or the tuple
  \<open>(pts, pts_pos, dts, dts_pos)\<close>. The slices \<open>packet[i : i + n]\<close> are
  \<open>take n (drop i packet)\<close>. The reads \<open>packet[idx + 7]\<close> and \<open>packet[idx + 8]\<close>
  are guarded in the source only by \<open>idx + 6 > len(packet)\<close>, so they raise
  \<open>IndexError\<close> when they fall beyond the packet.
\<close>

definition extract_pts :: "bytes \<Rightarrow> py_error + (int \<times> nat \<times> int option \<times> nat option) option" where
  "extract_pts packet =
     (if length packet \<noteq> TS_PACKET_SIZE \<or> packet ! 0 \<noteq> 0x47 then Inr None
      else
        let payload_unit_start = (uint (packet ! 1) AND 0x40 \<noteq> 0);
            adaptation_field_control = drop_bit 4 (uint (packet ! 3)) AND 0x03;
            has_adaptation = (adaptation_field_control = 2 \<or> adaptation_field_control = 3)
        in
        if has_adaptation \<and> 4 \<ge> length packet then Inr None
        else
          let idx = (if has_adaptation then 4 + (1 + unat (packet ! 4)) else 4) in
          if adaptation_field_control = 2 \<or> idx \<ge> length packet then Inr None
          else if \<not> payload_unit_start then Inr None
          else if idx + 6 > length packet \<or> take 3 (drop idx packet) \<noteq> [0x00, 0x00, 0x01]
            then Inr None
          else
            let stream_id = uint (packet ! (idx + 3)) in
            if \<not> stream_is_media stream_id then Inr None
            else if idx + 7 \<ge> length packet \<or> idx + 8 \<ge> length packet then Inl IndexError
            else
              let flags = uint (packet ! (idx + 7));
                  header_data_length = uint (packet ! (idx + 8))
              in
              if flags AND 0x80 = 0 then Inr None
              else
                let pts_pos = idx + 9 in
                if pts_pos + 5 > length packet \<or> header_data_length < 5 then Inr None
                else
                  (case decode_pts (take 5 (drop pts_pos packet)) of
                     Inl e \<Rightarrow> Inl e
                   | Inr pts \<Rightarrow>
                       if flags AND 0x40 \<noteq> 0 then
                         let dts_pos = pts_pos + 5 in
                         if dts_pos + 5 > length packet \<or> header_data_length < 10
                         then Inr None
                         else
                           (case decode_pts (take 5 (drop dts_pos packet)) of
                              Inl e \<Rightarrow> Inl e
                            | Inr dts \<Rightarrow> Inr (Some (pts, pts_pos, Some dts, Some dts_pos)))
                       else Inr (Some (pts, pts_pos, None, None))))"

text \<open>
  The local variables of \<open>main\<close> that survive an iteration of its loop, and the packets
  written to the output so far, in order. The output is an append-only sink: writes to it
  are taken to succeed.
\<close>

record splice_state =
  use_live :: bool
  placeholder_last_pts :: "int option"
  first_live_pts :: "int option"
  pts_offset :: "int option"
  written :: "bytes list"

definition initial_state :: splice_state where
  "initial_state =
     \<lparr>use_live = False, placeholder_last_pts = None, first_live_pts = None,
      pts_offset = None, written = []\<rparr>"

text \<open>The slice assignment \<open>buf[pos : pos + 5] = field\<close> on a \<open>bytearray\<close>.\<close>

definition slice_assign :: "bytes \<Rightarrow> nat \<Rightarrow> bytes \<Rightarrow> bytes" where
  "slice_assign buf pos field = take pos buf @ field @ drop (pos + 5) buf"

text \<open>Lines 126 to 130 of \<open>main\<close>: both timestamps shifted by the offset.\<close>

definition rewrite_packet ::
  "int \<Rightarrow> bytes \<Rightarrow> int \<Rightarrow> nat \<Rightarrow> int option \<Rightarrow> nat option \<Rightarrow> bytes" where
  "rewrite_packet offset packet pts pts_pos dts dts_pos =
     (let new_pts = (pts + offset) AND PTS_MASK;
          p1 = slice_assign packet pts_pos (encode_pts new_pts)
      in case (dts, dts_pos) of
           (Some d, Some dp) \<Rightarrow>
             (let new_dts = (d + offset) AND PTS_MASK
              in slice_assign p1 dp (encode_pts new_dts))
         | _ \<Rightarrow> p1)"

text \<open>The branch \<open>if use_live:\<close> of the loop body, for one packet read from the live side.\<close>

definition live_packet :: "splice_state \<Rightarrow> bytes \<Rightarrow> py_error + splice_state" where
  "live_packet st packet =
     (case extract_pts packet of
        Inl e \<Rightarrow> Inl e
      | Inr None \<Rightarrow> Inr (st\<lparr>written := written st @ [packet]\<rparr>)
      | Inr (Some (pts, pts_pos, dts, dts_pos)) \<Rightarrow>
          let st1 =
                (if first_live_pts st = None then
                   let anchor = (case placeholder_last_pts st of None \<Rightarrow> pts | Some p \<Rightarrow> p)
                   in st\<lparr>first_live_pts := Some pts,
                         placeholder_last_pts := Some anchor,
                         pts_offset := Some ((anchor - pts) AND PTS_MASK)\<rparr>
                 else st)
          in
          (case pts_offset st1 of
             None \<Rightarrow> Inr (st1\<lparr>written := written st1 @ [packet]\<rparr>)
           | Some offset \<Rightarrow>
               Inr (st1\<lparr>written := written st1 @
                      [rewrite_packet offset packet pts pts_pos dts dts_pos]\<rparr>)))"

text \<open>The \<open>else\<close> branch: one packet read from the placeholder side.\<close>

definition placeholder_packet :: "splice_state \<Rightarrow> bytes \<Rightarrow> py_error + splice_state" where
  "placeholder_packet st packet =
     (case extract_pts packet of
        Inl e \<Rightarrow> Inl e
      | Inr None \<Rightarrow> Inr (st\<lparr>written := written st @ [packet]\<rparr>)
      | Inr (Some (pts, _, _, _)) \<Rightarrow>
          let st1 =
                (if (case placeholder_last_pts st of None \<Rightarrow> True | Some seen \<Rightarrow> pts > seen)
                 then st\<lparr>placeholder_last_pts := Some pts\<rparr> else st)
          in Inr (st1\<lparr>written := written st1 @ [packet]\<rparr>))"

text \<open>
  The loop of \<open>main\<close>, run over the answers of its environment: one pair per iteration,
  whether the selector reports the live descriptor readable (asked only before the
  switch) and the bytes \<open>source.read(TS_PACKET_SIZE)\<close> returns. An empty read before
  the switch is \<open>continue\<close>, after it \<open>break\<close>. The list is a finite prefix of the
  run: when it is used up the state reached so far is returned.
\<close>

fun main_loop :: "splice_state \<Rightarrow> (bool \<times> bytes) list \<Rightarrow> py_error + splice_state" where
  "main_loop st [] = Inr st"
| "main_loop st ((events, packet) # rest) =
     (let st1 = (if \<not> use_live st \<and> events then st\<lparr>use_live := True\<rparr> else st) in
      if packet = [] then (if \<not> use_live st1 then main_loop st1 rest else Inr st1)
      else
        (case (if use_live st1 then live_packet st1 packet else placeholder_packet st1 packet) of
           Inl e \<Rightarrow> Inl e
         | Inr st2 \<Rightarrow> main_loop st2 rest))"

section \<open>The stub pipeline supervisor: \<open>server/transcode/stub.py\<close>\<close>

text \<open>
  Clock readings (\<open>time.time()\<close>) are parameters of the operations that take them and
  are idealised as real numbers. The dataclasses \<open>TranscodeProfile\<close>,
  \<open>PipelineStatus\<close> and \<open>PipelineMetrics\<close> are imported by the stub from a module
  that is not part of the sources at hand; their fields are the ones the stub and the
  request layer read and write.
\<close>

record TranscodeProfile =
  name :: string
  output_args :: "string list"
  description :: "string option"
  listen_port :: "int option"

record PipelineStatus =
  status_op_id :: string
  channel :: string
  profile :: string
  started_at :: real
  state :: string
  listen_host :: string
  status_listen_port :: int
  outfile :: string
  log_file :: string
  pgid :: "int option"
  ended_at :: "real option"
  restart_count :: nat
  last_error :: "string option"

record PipelineMetrics =
  metrics_op_id :: string
  bytes_total :: int
  out_time_ms :: int
  bitrate_kbps :: int
  updated_at :: "real option"

text \<open>
  Modelled from the spec: the defaults of the \<open>PipelineMetrics\<close> dataclass, whose
  declaration is missing. The stub builds the record as \<open>PipelineMetrics(op_id=op_id)\<close>;
  the spec lists its fields as cumulative bytes emitted, elapsed output time,
  instantaneous bitrate and last-update timestamp, here zero and unset until the first
  update.
\<close>

definition fresh_metrics :: "string \<Rightarrow> PipelineMetrics" where
  "fresh_metrics op_id =
     \<lparr>metrics_op_id = op_id, bytes_total = 0, out_time_ms = 0, bitrate_kbps = 0,
      updated_at = None\<rparr>"

text \<open>
  The attributes of \<open>StubTranscodeManager\<close>. \<open>_profiles\<close> is a dictionary in
  insertion order (an association list); a metrics task is known by the number it was
  created with, and \<open>cancelled\<close> collects the tasks whose \<open>cancel()\<close> was called.
\<close>

record manager =
  profiles :: "(string \<times> TranscodeProfile) list"
  pipelines :: "string \<rightharpoonup> PipelineStatus"
  metrics :: "string \<rightharpoonup> PipelineMetrics"
  metric_tasks :: "string \<rightharpoonup> nat"
  tasks_created :: nat
  cancelled :: "nat list"

definition stub_profile :: TranscodeProfile where
  "stub_profile =
     \<lparr>name = ''stub'', output_args = [],
      description = Some ''Stub profile (no real transcoding)'', listen_port = Some 5001\<rparr>"

definition init_manager :: manager where
  "init_manager =
     \<lparr>profiles = [(name stub_profile, stub_profile)], pipelines = Map.empty,
      metrics = Map.empty, metric_tasks = Map.empty, tasks_created = 0, cancelled = []\<rparr>"

definition available_profiles :: "manager \<Rightarrow> TranscodeProfile list" where
  "available_profiles m = map snd (profiles m)"

definition get_status :: "manager \<Rightarrow> string \<Rightarrow> py_error + (PipelineStatus option \<times> manager)" where
  "get_status m op_id = Inr (pipelines m op_id, m)"

definition update_metrics :: "real \<Rightarrow> manager \<Rightarrow> string \<Rightarrow> manager" where
  "update_metrics now m op_id =
     (case (pipelines m op_id, metrics m op_id) of
        (Some status, Some mt) \<Rightarrow>
          let elapsed = max 0 (now - started_at status);
              mt1 = mt\<lparr>out_time_ms := \<lfloor>elapsed * 1000\<rfloor>\<rparr>;
              mt2 = (if elapsed = 0 then mt1\<lparr>bytes_total := 0, bitrate_kbps := 0\<rparr>
                     else mt1\<lparr>bytes_total := \<lfloor>(1500000 / 8) * elapsed\<rfloor>,
                              bitrate_kbps := 1500\<rparr>)
          in m\<lparr>metrics := (metrics m)(op_id \<mapsto> mt2\<lparr>updated_at := Some now\<rparr>)\<rparr>
      | _ \<Rightarrow> m)"

definition get_metrics ::
  "real \<Rightarrow> manager \<Rightarrow> string \<Rightarrow> py_error + (PipelineMetrics option \<times> manager)" where
  "get_metrics now m op_id =
     (case (pipelines m op_id, metrics m op_id) of
        (Some status, Some mt) \<Rightarrow>
          (let m1 = update_metrics now m op_id in Inr (metrics m1 op_id, m1))
      | _ \<Rightarrow> Inr (None, m))"

text \<open>
  \<open>self._profiles.get(profile_name) or next(iter(self._profiles.values()))\<close>: the named
  profile, else the first one registered. On an empty registry \<open>next\<close> raises
  \<open>StopIteration\<close>, which leaves the coroutine as a \<open>RuntimeError\<close>.
\<close>

definition resolve_profile :: "manager \<Rightarrow> string \<Rightarrow> py_error + TranscodeProfile" where
  "resolve_profile m profile_name =
     (case map_of (profiles m) profile_name of
        Some p \<Rightarrow> Inr p
      | None \<Rightarrow>
          (case profiles m of
             [] \<Rightarrow> Inl (RuntimeError ''coroutine raised StopIteration'')
           | (k, p) # rest \<Rightarrow> Inr p))"

text \<open>
  Modelled from the spec: the fields of \<open>PipelineStatus\<close> that \<open>start_pipeline\<close> does not
  pass take the defaults of the dataclass, whose declaration is missing: \<open>ended_at\<close>
  unset, \<open>restart_count\<close> zero and \<open>last_error\<close> unset (a nullable \<open>last_error\<close> and a
  \<open>restart_count\<close> that only grows, in the spec's data model). Clock readings are a
  parameter; the task that \<open>asyncio.create_task\<close> starts is recorded by its number.
\<close>

definition start_pipeline ::
  "real \<Rightarrow> manager \<Rightarrow> string \<Rightarrow> string \<Rightarrow> string \<Rightarrow> py_error + (PipelineStatus \<times> manager)" where
  "start_pipeline now m op_id chan profile_name =
     (case resolve_profile m profile_name of
        Inl e \<Rightarrow> Inl e
      | Inr p \<Rightarrow>
          let status =
                \<lparr>status_op_id = op_id, channel = chan, profile = name p, started_at = now,
                 state = ''running'', listen_host = ''127.0.0.1'',
                 status_listen_port =
                   (case listen_port p of None \<Rightarrow> 5001 | Some port \<Rightarrow> if port = 0 then 5001 else port),
                 outfile = ''/tmp/'' @ op_id @ ''.mpg'',
                 log_file = ''/tmp/'' @ op_id @ ''.log'',
                 pgid = None, ended_at = None, restart_count = 0, last_error = None\<rparr>;
              m1 = m\<lparr>pipelines := (pipelines m)(op_id \<mapsto> status),
                     metrics := (metrics m)(op_id \<mapsto> fresh_metrics op_id),
                     metric_tasks := (metric_tasks m)(op_id \<mapsto> tasks_created m),
                     tasks_created := Suc (tasks_created m)\<rparr>
          in Inr (status, m1))"

text \<open>
  \<open>stop_pipeline\<close> reads the clock twice: for \<open>ended_at\<close> and inside
  \<open>_update_metrics\<close>.
\<close>

definition stop_pipeline ::
  "real \<Rightarrow> real \<Rightarrow> manager \<Rightarrow> string \<Rightarrow> py_error + (bool \<times> manager)" where
  "stop_pipeline ended now m op_id =
     (case pipelines m op_id of
        None \<Rightarrow> Inr (False, m)
      | Some status \<Rightarrow>
          let m1 = m\<lparr>pipelines :=
                       (pipelines m)(op_id \<mapsto> status\<lparr>state := ''stopped'', ended_at := Some ended\<rparr>)\<rparr>;
              m2 = update_metrics now m1 op_id;
              m3 = (case metric_tasks m2 op_id of
                      None \<Rightarrow> m2
                    | Some task \<Rightarrow>
                        m2\<lparr>metric_tasks := (metric_tasks m2)(op_id := None),
                            cancelled := cancelled m2 @ [task]\<rparr>)
          in Inr (True, m3))"

definition remove_pipeline :: "manager \<Rightarrow> string \<Rightarrow> manager" where
  "remove_pipeline m op_id =
     (let m1 = m\<lparr>pipelines := (pipelines m)(op_id := None)\<rparr>;
          m2 = (case metric_tasks m1 op_id of
                  None \<Rightarrow> m1
                | Some task \<Rightarrow>
                    m1\<lparr>metric_tasks := (metric_tasks m1)(op_id := None),
                        cancelled := cancelled m1 @ [task]\<rparr>)
      in m2\<lparr>metrics := (metrics m2)(op_id := None)\<rparr>)"

section \<open>TCP broadcast: \<open>scripts/tcp_sink.py\<close>\<close>

text \<open>
  A client is the \<open>StreamWriter\<close> of its connection, here a number. What the pair
  \<open>writer.write(chunk); await writer.drain()\<close> does is the environment's answer for
  that writer: the drain completes, an exception is raised, or the drain never completes
  (the peer has stopped reading and the transport's buffer stays above its high-water
  mark). The source awaits \<open>drain()\<close> directly, with no timeout around it.
\<close>

datatype write_result = Drained | Raised py_error | Stalled

text \<open>
  How a coroutine ends: it returns, it leaves with an exception, it stays suspended for
  ever in an \<open>await\<close>, or it is cancelled (\<open>stdin_task.cancel()\<close>); each with the
  state reached. \<open>Waiting\<close> is the end of a finite history: the coroutine waits for input
  that the history does not contain.
\<close>

datatype 'a run = Returned 'a | Failed py_error 'a | Suspended 'a | Cancelled 'a | Waiting 'a

text \<open>The options \<open>--wait-for-client\<close> and \<open>--stop-on-disconnect\<close>.\<close>

record sink_config =
  wait_for_client :: bool
  stop_on_disconnect :: bool

text \<open>
  \<open>clients\<close> is the set of connected writers, in the order \<open>list(clients)\<close> iterates
  it; \<open>handed\<close> are the chunks passed to each writer's \<open>write\<close>; \<open>closed\<close> are the
  writers \<open>close_client\<close> has closed; \<open>client_ready\<close> and \<open>shutdown_event\<close> are the
  two events of \<open>serve_stream\<close>.
\<close>

record sink_state =
  clients :: "nat list"
  handed :: "nat \<Rightarrow> bytes list"
  closed :: "nat set"
  total_bytes :: nat
  client_ready :: bool
  shutdown_event :: bool

definition close_client :: "sink_state \<Rightarrow> nat \<Rightarrow> sink_state" where
  "close_client st w = st\<lparr>clients := removeAll w (clients st), closed := insert w (closed st)\<rparr>"

text \<open>
  \<open>handle_client\<close> in two steps. A connection arrives: the writer joins the set and
  \<open>client_ready\<close> is set (lines 57 to 60). The connection ends and \<open>reader.read()\<close>
  comes back: the \<open>finally\<close> block closes the writer and, under
  \<open>--stop-on-disconnect\<close> with no client left, sets \<open>shutdown_event\<close> and cancels the
  read task (lines 64 to 69); the cancellation is read off \<open>shutdown_event\<close> by the
  read task below, at the \<open>await\<close> where it is.
\<close>

datatype sink_event = Connect nat | Disconnect nat

definition client_finished :: "sink_config \<Rightarrow> sink_state \<Rightarrow> nat \<Rightarrow> sink_state" where
  "client_finished cfg st w =
     (let st1 = close_client st w in
      if stop_on_disconnect cfg \<and> clients st1 = [] then st1\<lparr>shutdown_event := True\<rparr> else st1)"

fun handle_client :: "sink_config \<Rightarrow> sink_state \<Rightarrow> sink_event \<Rightarrow> sink_state" where
  "handle_client cfg st (Connect w) =
     st\<lparr>clients := (if w \<in> set (clients st) then clients st else clients st @ [w]),
        client_ready := True\<rparr>"
| "handle_client cfg st (Disconnect w) = client_finished cfg st w"

text \<open>The first loop of \<open>broadcast\<close>, over \<open>list(clients)\<close>, collecting \<open>dead\<close>.\<close>

fun write_clients ::
  "(nat \<Rightarrow> write_result) \<Rightarrow> bytes \<Rightarrow> nat list \<Rightarrow> sink_state \<Rightarrow> nat list \<Rightarrow> (sink_state \<times> nat list) run" where
  "write_clients env chunk [] st dead = Returned (st, dead)"
| "write_clients env chunk (w # ws) st dead =
     (let st1 = st\<lparr>handed := (handed st)(w := handed st w @ [chunk])\<rparr> in
      case env w of
        Drained \<Rightarrow> write_clients env chunk ws st1 dead
      | Raised e \<Rightarrow>
          if e = ConnectionResetError \<or> e = BrokenPipeError
          then write_clients env chunk ws st1 (dead @ [w])
          else Failed e (st1, dead)
      | Stalled \<Rightarrow> Suspended (st1, dead))"

definition broadcast :: "(nat \<Rightarrow> write_result) \<Rightarrow> bytes \<Rightarrow> sink_state \<Rightarrow> sink_state run" where
  "broadcast env chunk st =
     (case write_clients env chunk (clients st) st [] of
        Returned (st1, dead) \<Rightarrow> Returned (foldl close_client st1 dead)
      | Failed e (st1, dead) \<Rightarrow> Failed e st1
      | Suspended (st1, dead) \<Rightarrow> Suspended st1
      | Cancelled (st1, dead) \<Rightarrow> Cancelled st1
      | Waiting (st1, dead) \<Rightarrow> Waiting st1)"

text \<open>
  The read task. Its history has two parts: \<open>chunks\<close>, what the successive calls of
  \<open>stdin_reader.read\<close> return (an empty chunk is the end of the input), and a schedule
  with one entry for each \<open>await\<close> of the task outside \<open>broadcast\<close>: what the
  \<open>handle_client\<close> tasks do while the read task waits there, and the writers' answers
  in the broadcast that follows, if one follows. Connections that arrive or end while a
  broadcast is under way are not part of a history.

  \<open>read_loop\<close> is the loop \<open>while not shutdown_event.is_set()\<close>. While the task
  waits in \<open>read\<close> the handlers run; if one of them has set \<open>shutdown_event\<close> it has
  cancelled the task too. After a broadcast that closed writers, the handler of each of
  them leaves its \<open>reader.read()\<close> and runs its \<open>finally\<close> block before the read task
  goes on; a closed writer is one that was in the set before the broadcast and is not
  after it. \<open>stdin_consumer\<close> first waits for \<open>client_ready\<close> under
  \<open>--wait-for-client\<close>, then runs the loop.
\<close>

fun read_loop ::
  "sink_config \<Rightarrow> sink_state \<Rightarrow> bytes list \<Rightarrow> (sink_event list \<times> (nat \<Rightarrow> write_result)) list
     \<Rightarrow> sink_state run" where
  "read_loop cfg st chunks [] = (if shutdown_event st then Returned st else Waiting st)"
| "read_loop cfg st chunks ((arrivals, env) # schedule) =
     (if shutdown_event st then Returned st
      else
        let st1 = foldl (handle_client cfg) st arrivals in
        if shutdown_event st1 then Cancelled st1
        else
          (case chunks of
             [] \<Rightarrow> Waiting st1
           | data # later \<Rightarrow>
               if data = [] then Returned st1
               else
                 (case broadcast env data (st1\<lparr>total_bytes := total_bytes st1 + length data\<rparr>) of
                    Returned st2 \<Rightarrow>
                      let st3 = foldl (client_finished cfg) st2
                                  (filter (\<lambda>w. w \<notin> set (clients st2)) (clients st1))
                      in if shutdown_event st3 then Cancelled st3
                         else read_loop cfg st3 later schedule
                  | Failed e st2 \<Rightarrow> Failed e st2
                  | Suspended st2 \<Rightarrow> Suspended st2
                  | Cancelled st2 \<Rightarrow> Cancelled st2
                  | Waiting st2 \<Rightarrow> Waiting st2)))"

fun stdin_consumer ::
  "sink_config \<Rightarrow> sink_state \<Rightarrow> bytes list \<Rightarrow> (sink_event list \<times> (nat \<Rightarrow> write_result)) list
     \<Rightarrow> sink_state run" where
  "stdin_consumer cfg st chunks [] =
     (if wait_for_client cfg \<and> \<not> client_ready st then Waiting st
      else read_loop cfg st chunks [])"
| "stdin_consumer cfg st chunks ((arrivals, env) # schedule) =
     (if wait_for_client cfg \<and> \<not> client_ready st
      then
        let st1 = foldl (handle_client cfg) st arrivals in
        if shutdown_event st1 then Cancelled st1
        else stdin_consumer cfg st1 chunks schedule
      else read_loop cfg st chunks ((arrivals, env) # schedule))"

declare read_loop.simps [simp del] stdin_consumer.simps [simp del]

section \<open>The placeholder/live switch: \<open>scripts/fifo_switch.py\<close>\<close>

text \<open>
  The switch is modelled by the sequence of actions it performs on its two child
  processes, on the live pipe and on the FIFO, as a function of what the environment
  answers: what each read returns, whether a process has exited, whether a write finds
  the FIFO's reader gone, what the clock shows.
\<close>

datatype child = Placeholder | Live

datatype signal = SIGTERM | SIGKILL

datatype fd_mode = NonBlocking | Blocking

text \<open>
  \<open>LiveRead\<close> carries the mode the live descriptor is in when \<open>read\<close> is called and
  what the call returns (\<open>None\<close> when nothing is there to read without blocking).
\<close>

datatype event =
    SetLiveMode fd_mode
  | OpenFifo
  | LiveRead fd_mode "bytes option"
  | PlaceholderRead bytes
  | SinkWrite bytes
  | Sleep real
  | Killpg child signal
  | WaitExit child
  | ClosePlaceholderStdout
  | CloseFifo
  | Log string

text \<open>The environment's answers during one call of \<open>_terminate\<close>.\<close>

record term_env =
  still_running :: bool
  group_gone :: bool
  wait_expires :: bool

definition terminate :: "child \<Rightarrow> term_env \<Rightarrow> event list" where
  "terminate p env =
     (let wait_then_kill = WaitExit p # (if wait_expires env then [Killpg p SIGKILL] else [])
      in if still_running env
         then (if group_gone env then [Killpg p SIGTERM] else Killpg p SIGTERM # wait_then_kill)
         else wait_then_kill)"

text \<open>The environment's answers during one iteration of the loop before the handover.\<close>

record tick =
  live_exited :: bool
  live_data :: "bytes option"
  handover_term :: term_env
  placeholder_data :: bytes
  write_fails :: bool
  placeholder_exited :: bool
  clock :: real
  clock_after_log :: real

text \<open>One iteration of the loop after the handover.\<close>

record live_tick =
  relay_data :: bytes
  relay_write_fails :: bool
  relay_live_exited :: bool

text \<open>
  The value of \<open>--switch-grace\<close> is what \<open>float\<close> makes of the argument: a finite
  number (taken as a real number; rounding is left aside), an infinity or a NaN.
  \<open>float_truth\<close> is the truth value Python gives it in \<open>if args.switch_grace\<close>: false
  for zero only.
\<close>

datatype pyfloat = Finite real | PosInf | NegInf | NaN

definition float_truth :: "pyfloat \<Rightarrow> bool" where
  "float_truth x = (x \<noteq> Finite 0)"

text \<open>
  \<open>time.sleep\<close> of the standard library: the length is converted to the platform's time
  type, which fails with \<open>OverflowError\<close> for a length out of its range and with
  \<open>ValueError\<close> for a NaN, and a negative length is then refused with \<open>ValueError\<close>;
  otherwise the call returns after that many seconds. \<open>limit\<close> is the longest length,
  in seconds, that the time type holds.
\<close>

definition time_sleep :: "real \<Rightarrow> pyfloat \<Rightarrow> py_error + real" where
  "time_sleep limit secs =
     (case secs of
        NaN \<Rightarrow> Inl ValueError
      | PosInf \<Rightarrow> Inl OverflowError
      | NegInf \<Rightarrow> Inl OverflowError
      | Finite x \<Rightarrow>
          if x < - limit \<or> limit < x then Inl OverflowError
          else if x < 0 then Inl ValueError
          else Inr x)"

record switch_state =
  live_mode :: fd_mode
  last_placeholder_activity :: real
  trace :: "event list"

definition emit :: "event list \<Rightarrow> switch_state \<Rightarrow> switch_state" where
  "emit es st = st\<lparr>trace := trace st @ es\<rparr>"

datatype outcome = Finished | Uncaught py_error | SinkGone | Unfinished | HandedOver

text \<open>
  The handover, from the log line to the \<open>break\<close> (lines 90 to 96); \<open>SinkGone\<close> is a
  \<open>BrokenPipeError\<close> on its way to the handler of \<open>main\<close>.
\<close>

definition switch_over :: "switch_state \<Rightarrow> tick \<Rightarrow> bytes \<Rightarrow> switch_state \<times> outcome" where
  "switch_over st t live_chunk =
     (let st1 = emit [Log ''[fifo-switch] live data detected, switching over''] st;
          st2 = emit [SetLiveMode Blocking] (st1\<lparr>live_mode := Blocking\<rparr>);
          st3 = emit (terminate Placeholder (handover_term t)) st2;
          st4 = emit [ClosePlaceholderStdout] st3;
          st5 = emit [SinkWrite live_chunk] st4
      in if write_fails t then (st5, SinkGone) else (st5, HandedOver))"

text \<open>
  \<open>while not live_started\<close>. \<open>HandedOver\<close> is the \<open>break\<close> after the handover;
  \<open>Unfinished\<close> is the end of the answers given. An exception of \<open>time.sleep\<close> leaves
  the loop after the live read.
\<close>

fun before_handover ::
  "real \<Rightarrow> pyfloat \<Rightarrow> switch_state \<Rightarrow> tick list \<Rightarrow> switch_state \<times> outcome" where
  "before_handover limit grace st [] = (st, Unfinished)"
| "before_handover limit grace st (t # ts) =
     (if live_exited t
      then (st, Uncaught (RuntimeError ''live process exited before producing data''))
      else
        let st1 = emit [LiveRead (live_mode st) (live_data t)] st;
            live_chunk = (case live_data t of None \<Rightarrow> [] | Some data \<Rightarrow> data)
        in
        if live_chunk \<noteq> []
        then
          (if float_truth grace
           then
             (case time_sleep limit grace of
                Inl e \<Rightarrow> (st1, Uncaught e)
              | Inr secs \<Rightarrow> switch_over (emit [Sleep secs] st1) t live_chunk)
           else switch_over st1 t live_chunk)
        else
          let st2 = emit [PlaceholderRead (placeholder_data t)] st1 in
          if placeholder_data t \<noteq> []
          then
            (let st3 = emit [SinkWrite (placeholder_data t)] st2 in
             if write_fails t then (st3, SinkGone)
             else before_handover limit grace (st3\<lparr>last_placeholder_activity := clock t\<rparr>) ts)
          else if placeholder_exited t
          then (st2, Uncaught (RuntimeError ''placeholder process exited unexpectedly''))
          else if clock t - last_placeholder_activity st2 > 5
          then before_handover limit grace
                 ((emit [Log ''[fifo-switch] waiting for placeholder data...''] st2)
                    \<lparr>last_placeholder_activity := clock_after_log t\<rparr>) ts
          else before_handover limit grace st2 ts)"

text \<open>The second loop, \<open>while True\<close>, relaying live reads.\<close>

fun relay_live :: "switch_state \<Rightarrow> live_tick list \<Rightarrow> switch_state \<times> outcome" where
  "relay_live st [] = (st, Unfinished)"
| "relay_live st (t # ts) =
     (let st1 = emit [LiveRead (live_mode st) (Some (relay_data t))] st in
      if relay_data t \<noteq> []
      then
        (let st2 = emit [SinkWrite (relay_data t)] st1 in
         if relay_write_fails t then (st2, SinkGone) else relay_live st2 ts)
      else if relay_live_exited t then (st1, Finished)
      else relay_live st1 ts)"

text \<open>
  \<open>main\<close> from the point where both children run: the live descriptor is made
  non-blocking, the FIFO is opened, the two loops run inside \<open>try\<close>, a
  \<open>BrokenPipeError\<close> is logged and swallowed, and \<open>finally\<close> terminates both
  children and closes the FIFO. A run whose answers are used up has not reached
  \<open>finally\<close> yet. \<open>sleep_max\<close> is the longest sleep the platform's time type holds.
\<close>

record switch_env =
  sleep_max :: real
  start_clock :: real
  ticks :: "tick list"
  live_ticks :: "live_tick list"
  final_placeholder :: term_env
  final_live :: term_env

definition finally_block :: "switch_env \<Rightarrow> switch_state \<Rightarrow> switch_state" where
  "finally_block env st =
     emit (terminate Placeholder (final_placeholder env) @ terminate Live (final_live env)
           @ [CloseFifo]) st"

definition main_switch :: "pyfloat \<Rightarrow> switch_env \<Rightarrow> event list \<times> outcome" where
  "main_switch grace env =
     (let st0 = \<lparr>live_mode = NonBlocking, last_placeholder_activity = start_clock env,
                 trace = [SetLiveMode NonBlocking, OpenFifo]\<rparr>;
          (st1, r1) = before_handover (sleep_max env) grace st0 (ticks env);
          (st2, r2) = (if r1 = HandedOver then relay_live st1 (live_ticks env) else (st1, r1))
      in case r2 of
           Unfinished \<Rightarrow> (trace st2, Unfinished)
         | SinkGone \<Rightarrow>
             (trace (finally_block env
                       (emit [Log ''[fifo-switch] FIFO reader closed, stopping''] st2)),
              Finished)
         | r \<Rightarrow> (trace (finally_block env st2), r))"

section \<open>HLS repackaging: \<open>scripts/hls_repacker.py\<close>\<close>




















section \<open>Auxiliary notions and sample data for the proofs\<close>

text \<open>
  Where the payload of a packet starts (the variable \<open>idx\<close> of \<open>extract_pts\<close> once the
  adaptation field is skipped), and the conditions under which \<open>extract_pts\<close> reaches
  its final \<open>return\<close>: they are proved equivalent to the parser in
  \<open>extract_pts_iff\<close>.
\<close>

definition payload_index :: "bytes \<Rightarrow> nat" where
  "payload_index p =
     (if drop_bit 4 (uint (p ! 3)) AND 0x03 = 2 \<or> drop_bit 4 (uint (p ! 3)) AND 0x03 = 3
      then 4 + (1 + unat (p ! 4)) else 4)"

definition pes_header_at :: "bytes \<Rightarrow> bool \<Rightarrow> bool" where
  "pes_header_at p has_dts =
     (length p = 188 \<and> p ! 0 = 0x47 \<and>
      drop_bit 4 (uint (p ! 3)) AND 0x03 \<noteq> 2 \<and>
      payload_index p + 14 \<le> 188 \<and>
      uint (p ! 1) AND 0x40 \<noteq> 0 \<and>
      take 3 (drop (payload_index p) p) = [0x00, 0x00, 0x01] \<and>
      stream_is_media (uint (p ! (payload_index p + 3))) \<and>
      uint (p ! (payload_index p + 7)) AND 0x80 \<noteq> 0 \<and>
      5 \<le> uint (p ! (payload_index p + 8)) \<and>
      (if has_dts
       then uint (p ! (payload_index p + 7)) AND 0x40 \<noteq> 0 \<and> payload_index p + 19 \<le> 188
            \<and> 10 \<le> uint (p ! (payload_index p + 8))
       else uint (p ! (payload_index p + 7)) AND 0x40 = 0))"

text \<open>
  Sample packets: a 188-byte transport packet that starts a video PES payload (stream id
  \<open>0xE0\<close>) carrying only a presentation timestamp in the given five bytes, and a packet
  whose 176-byte adaptation field leaves room for just the first seven bytes of a PES
  header.
\<close>

definition pes_packet :: "bytes \<Rightarrow> bytes" where
  "pes_packet field =
     [0x47, 0x40, 0x00, 0x10, 0x00, 0x00, 0x01, 0xE0, 0x00, 0x00, 0x80, 0x80, 0x05]
     @ field @ replicate 170 0xFF"

definition truncated_packet :: bytes where
  "truncated_packet =
     [0x47, 0x40, 0x00, 0x30, 0xB0, 0x00] @ replicate 175 0xFF
     @ [0x00, 0x00, 0x01, 0xE0, 0x00, 0x00, 0x80]"

text \<open>Sample states of the loop: after the first live timestamp, and just before it.\<close>

definition after_first_live :: splice_state where
  "after_first_live =
     \<lparr>use_live = True, placeholder_last_pts = Some 90000, first_live_pts = Some 0,
      pts_offset = Some 90000, written = []\<rparr>"

definition placeholder_seen :: splice_state where
  "placeholder_seen =
     \<lparr>use_live = True, placeholder_last_pts = Some 90000, first_live_pts = None,
      pts_offset = None, written = []\<rparr>"

text \<open>
  Sample runs of the stub: a start that names a profile the registry does not hold, and a
  second start under the operation id that the first one made active.
\<close>

definition first_start :: "py_error + (PipelineStatus \<times> manager)" where
  "first_start = start_pipeline 0 init_manager ''op1'' ''amigadev'' ''no-such-profile''"

definition second_start :: "py_error + (PipelineStatus \<times> manager)" where
  "second_start = start_pipeline 7 (snd (projr first_start)) ''op1'' ''other'' ''stub''"

text \<open>
  Sample sink: two one-byte chunks; three connected clients and nothing sent yet; an
  environment in which the second client has stopped reading, one in which its connection
  fails with an error other than a reset or a broken pipe, and one in which it is reset.
\<close>

definition first_chunk :: bytes where
  "first_chunk = [0x47]"

definition next_chunk :: bytes where
  "next_chunk = [0x48]"

definition three_clients :: sink_state where
  "three_clients =
     \<lparr>clients = [1, 2, 3], handed = (\<lambda>w. []), closed = {}, total_bytes = 0,
      client_ready = True, shutdown_event = False\<rparr>"

definition second_stalls :: "nat \<Rightarrow> write_result" where
  "second_stalls w = (if w = 2 then Stalled else Drained)"

definition second_times_out :: "nat \<Rightarrow> write_result" where
  "second_times_out w = (if w = 2 then Raised OSError else Drained)"

definition second_resets :: "nat \<Rightarrow> write_result" where
  "second_resets w = (if w = 2 then Raised ConnectionResetError else Drained)"

text \<open>Neither option set, and writers that all complete their writes.\<close>

definition keep_serving :: sink_config where
  "keep_serving = \<lparr>wait_for_client = False, stop_on_disconnect = False\<rparr>"

definition all_drain :: "nat \<Rightarrow> write_result" where
  "all_drain w = Drained"

text \<open>A writer whose write either completes or fails with one of the two errors caught.\<close>

definition drains_or_drops :: "write_result \<Rightarrow> bool" where
  "drains_or_drops r =
     (r = Drained \<or> r = Raised ConnectionResetError \<or> r = Raised BrokenPipeError)"

text \<open>One more chunk passed to the \<open>write\<close> of writer \<open>w\<close>.\<close>

definition hand_over :: "bytes \<Rightarrow> (nat \<Rightarrow> bytes list) \<Rightarrow> nat \<Rightarrow> (nat \<Rightarrow> bytes list)" where
  "hand_over chunk h w = h(w := h w @ [chunk])"







text \<open>
  Shapes of the trace of the switch. One round of the loop before the handover: the live
  pipe is read in non-blocking mode and yields nothing, then the placeholder is read and
  its chunk, if any, is written to the FIFO (an empty read may be followed by the
  watchdog's log line). The handover: the non-empty live read and what follows it up to
  the write of that chunk. After the handover, or in the clean-up of a run without one:
  live reads only in blocking mode, no placeholder read, no change of mode.
\<close>

definition empty_read :: "bytes option \<Rightarrow> bool" where
  "empty_read x = (case x of None \<Rightarrow> True | Some data \<Rightarrow> data = [])"

definition poll_round :: "event list \<Rightarrow> bool" where
  "poll_round es =
     (case es of
        LiveRead m x # rest \<Rightarrow>
          m = NonBlocking \<and> empty_read x \<and>
          (case rest of
             PlaceholderRead d # tail \<Rightarrow>
               (if d \<noteq> [] then tail = [SinkWrite d]
                else tail = [] \<or> tail = [Log ''[fifo-switch] waiting for placeholder data...''])
           | _ \<Rightarrow> False)
      | _ \<Rightarrow> False)"

definition handover_sequence :: "event list \<Rightarrow> bytes \<Rightarrow> term_env \<Rightarrow> event list" where
  "handover_sequence slept chunk t =
     [LiveRead NonBlocking (Some chunk)]
     @ slept
     @ [Log ''[fifo-switch] live data detected, switching over'', SetLiveMode Blocking]
     @ terminate Placeholder t
     @ [ClosePlaceholderStdout, SinkWrite chunk]"

text \<open>
  The optional grace sleep: nothing for a grace of zero, the sleep when \<open>time.sleep\<close>
  accepts the length, its exception otherwise.
\<close>

definition grace_sleep :: "real \<Rightarrow> pyfloat \<Rightarrow> py_error + event list" where
  "grace_sleep limit grace =
     (if float_truth grace
      then (case time_sleep limit grace of Inl e \<Rightarrow> Inl e | Inr secs \<Rightarrow> Inr [Sleep secs])
      else Inr [])"

text \<open>
  A tick that keeps the first loop going: the live process runs and has nothing to read,
  the write of the placeholder's chunk succeeds, and a silent placeholder still runs.
  \<open>round_for\<close> relates such a tick to its round in the trace.
\<close>

definition quiet_tick :: "tick \<Rightarrow> bool" where
  "quiet_tick t =
     (\<not> live_exited t \<and> empty_read (live_data t)
      \<and> (if placeholder_data t \<noteq> [] then \<not> write_fails t else \<not> placeholder_exited t))"

definition round_for :: "tick \<Rightarrow> event list \<Rightarrow> bool" where
  "round_for t es =
     (poll_round es
      \<and> take 2 es = [LiveRead NonBlocking (live_data t), PlaceholderRead (placeholder_data t)])"

definition relay_event :: "event \<Rightarrow> bool" where
  "relay_event e =
     (case e of
        LiveRead m x \<Rightarrow> m = Blocking
      | SinkWrite d \<Rightarrow> True
      | Killpg p s \<Rightarrow> True
      | WaitExit p \<Rightarrow> True
      | CloseFifo \<Rightarrow> True
      | Log s \<Rightarrow> True
      | _ \<Rightarrow> False)"

definition cleanup_event :: "event \<Rightarrow> bool" where
  "cleanup_event e =
     (case e of
        Killpg p s \<Rightarrow> True
      | WaitExit p \<Rightarrow> True
      | CloseFifo \<Rightarrow> True
      | Log s \<Rightarrow> True
      | _ \<Rightarrow> False)"

text \<open>
  Sample run of the switch: two rounds on the placeholder (the second finds the
  placeholder silent), then a chunk of live data, after which the placeholder ignores
  the termination signal for two seconds; one more live chunk is relayed before the live
  process ends.
\<close>

definition quiet :: term_env where
  "quiet = \<lparr>still_running = False, group_gone = False, wait_expires = False\<rparr>"

definition stubborn :: term_env where
  "stubborn = \<lparr>still_running = True, group_gone = False, wait_expires = True\<rparr>"

definition sample_switch_env :: switch_env where
  "sample_switch_env =
     \<lparr>sleep_max = 9223372036, start_clock = 0,
      ticks =
        [\<lparr>live_exited = False, live_data = None, handover_term = quiet,
          placeholder_data = [0x47, 0x01], write_fails = False, placeholder_exited = False,
          clock = 1, clock_after_log = 1\<rparr>,
         \<lparr>live_exited = False, live_data = None, handover_term = quiet,
          placeholder_data = [], write_fails = False, placeholder_exited = False,
          clock = 2, clock_after_log = 2\<rparr>,
         \<lparr>live_exited = False, live_data = Some [0x47, 0x02], handover_term = stubborn,
          placeholder_data = [0x47, 0x03], write_fails = False, placeholder_exited = False,
          clock = 3, clock_after_log = 3\<rparr>],
      live_ticks =
        [\<lparr>relay_data = [0x47, 0x04], relay_write_fails = False, relay_live_exited = False\<rparr>,
         \<lparr>relay_data = [], relay_write_fails = False, relay_live_exited = True\<rparr>],
      final_placeholder = quiet, final_live = quiet\<rparr>"

text \<open>The trace of that run when \<open>time.sleep\<close> refuses the grace.\<close>

definition rejected_run :: "event list" where
  "rejected_run =
     [SetLiveMode NonBlocking, OpenFifo,
      LiveRead NonBlocking None, PlaceholderRead [0x47, 0x01], SinkWrite [0x47, 0x01],
      LiveRead NonBlocking None, PlaceholderRead [],
      LiveRead NonBlocking (Some [0x47, 0x02]),
      WaitExit Placeholder, WaitExit Live, CloseFifo]"

text \<open>
  What the loop has to write for a live packet once the offset is \<open>off\<close>: a packet of
  the same length; if the input carries a decodable timestamp, the output parses at the
  same positions to the timestamps shifted by \<open>off\<close> modulo \<open>2^33\<close> and equals the input
  at every byte outside the two fields; otherwise the output is the input.
\<close>

definition shifted_copy :: "int \<Rightarrow> bytes \<Rightarrow> bytes \<Rightarrow> bool" where
  "shifted_copy off packet out =
     (length out = length packet \<and>
      (case extract_pts packet of
         Inr (Some (pts, pp, dts, dp)) \<Rightarrow>
           extract_pts out =
             Inr (Some ((pts + off) mod 2 ^ 33, pp, map_option (\<lambda>d. (d + off) mod 2 ^ 33) dts, dp))
           \<and> (\<forall>i<length packet. \<not> (pp \<le> i \<and> i < pp + 5) \<longrightarrow>
                 (\<forall>k. dp = Some k \<longrightarrow> \<not> (k \<le> i \<and> i < k + 5)) \<longrightarrow> out ! i = packet ! i)
       | _ \<Rightarrow> out = packet))"

section \<open>Timestamp fields: decoding, encoding and their bounds\<close>

lemma PTS_MASK_mask: "PTS_MASK = mask 33"
  by (simp add: PTS_MASK_def mask_eq_exp_minus_1)

lemma and_PTS_MASK: "v AND PTS_MASK = take_bit 33 v"
  by (simp add: PTS_MASK_mask take_bit_eq_mask)

lemma byte_consts:
  "(0x07::int) = mask 3" "(0x7F::int) = mask 7" "(0xFF::int) = mask 8"
  "push_bit 33 (1::int) - 1 = mask 33"
  by (simp_all add: mask_eq_exp_minus_1)

lemma marker_strip:
  "drop_bit m (take_bit (m + k) (push_bit m X OR mask m)) = take_bit k (X::int)"
  by (rule bit_eqI) (auto simp add: bit_simps)

lemma marker_strip1:
  "drop_bit (Suc 0) (take_bit 8 (push_bit (Suc 0) X OR 1)) = take_bit 7 (X::int)"
  using marker_strip [of 1 7 X] by simp

lemma reassemble:
  "push_bit 30 (take_bit 3 (drop_bit 30 p)) OR push_bit 22 (take_bit 8 (drop_bit 22 p))
   OR push_bit 15 (take_bit 7 (drop_bit 15 p)) OR push_bit 7 (take_bit 8 (drop_bit 7 p))
   OR take_bit 7 p = take_bit 33 (p::int)"
  apply (rule bit_eqI)
  subgoal for n
    apply (cases "n < 7"; cases "n < 15"; cases "n < 22"; cases "n < 30"; cases "n < 33")
    apply (simp_all add: bit_simps)
    apply (auto simp: less_diff_conv2)
    done
  done

lemma length_encode_pts: "length (encode_pts v) = 5"
  by (simp add: encode_pts_def encode_pts_ints_def Let_def)


lemma strip_marker_byte:
  "drop_bit 1 (uint (word_of_int (push_bit 1 X OR 1) :: byte)) = take_bit 7 (X::int)"
  using marker_strip [of 1 7 X] by (simp add: uint_word_of_int_eq)

lemma strip_marker_byte_masked:
  "drop_bit 1 (uint (word_of_int ((push_bit 1 X OR 1) AND 0xFF) :: byte)) = take_bit 7 (X::int)"
proof -
  have "(word_of_int ((push_bit 1 X OR 1) AND 0xFF) :: byte) = word_of_int (push_bit 1 X OR 1)"
    by (rule bit_word_eqI) (auto simp add: bit_simps byte_consts simp flip: take_bit_eq_mask)
  then show ?thesis by (simp only: strip_marker_byte)
qed

lemma uint_byte_masked:
  "uint (word_of_int (X AND 0xFF) :: byte) = take_bit 8 (X::int)"
  by (simp add: uint_word_of_int_eq byte_consts flip: take_bit_eq_mask)

lemma prefix_dropped:
  "take_bit 7 (push_bit 4 2 OR (Y AND 0x07)) AND 0x07 = take_bit 3 (Y::int)"
  unfolding byte_consts
  apply (simp only: flip: take_bit_eq_mask)
  apply (rule bit_eqI)
  apply (auto simp add: bit_simps)
  done


lemma piece0:
  "drop_bit 1 (uint (word_of_int (push_bit 1 (push_bit 4 0x2 OR (Y AND 0x07)) OR 0x01) :: byte)) AND 0x07
   = take_bit 3 (Y::int)"
  by (simp only: strip_marker_byte prefix_dropped)

lemma piece2:
  "drop_bit 1 (uint (word_of_int ((push_bit 1 (Y AND 0x7F) OR 0x01) AND 0xFF) :: byte)) AND 0x7F
   = take_bit 7 (Y::int)"
proof -
  have "take_bit 7 (Y AND mask 7) AND mask 7 = take_bit 7 Y"
    by (rule bit_eqI) (auto simp add: bit_simps)
  then show ?thesis
    unfolding strip_marker_byte_masked unfolding byte_consts .
qed

lemma decode_pts_five:
  "decode_pts [a, b, c, d, e] =
   Inr (push_bit 30 (drop_bit 1 (uint a) AND 0x07)
        OR push_bit 22 (uint b)
        OR push_bit 15 (drop_bit 1 (uint c) AND 0x7F)
        OR push_bit 7 (uint d)
        OR (drop_bit 1 (uint e) AND 0x7F))"
  by (simp add: decode_pts_def)

lemma decode_encode: "decode_pts (encode_pts v) = Inr (take_bit 33 v)"
proof -
  define p where "p = take_bit 33 v"
  have p: "v AND (push_bit 33 1 - 1) = p"
    by (simp only: p_def byte_consts(4) take_bit_eq_mask)
  have enc: "encode_pts v =
     [word_of_int (push_bit 1 (push_bit 4 0x2 OR (drop_bit 30 p AND 0x07)) OR 0x01),
      word_of_int (drop_bit 22 p AND 0xFF),
      word_of_int ((push_bit 1 (drop_bit 15 p AND 0x7F) OR 0x01) AND 0xFF),
      word_of_int (drop_bit 7 p AND 0xFF),
      word_of_int ((push_bit 1 (p AND 0x7F) OR 0x01) AND 0xFF)]"
    by (simp only: encode_pts_def encode_pts_ints_def Let_def p list.map)
  have "decode_pts (encode_pts v) =
        Inr (push_bit 30 (take_bit 3 (drop_bit 30 p)) OR push_bit 22 (take_bit 8 (drop_bit 22 p))
             OR push_bit 15 (take_bit 7 (drop_bit 15 p)) OR push_bit 7 (take_bit 8 (drop_bit 7 p))
             OR take_bit 7 p)"
    apply (simp only: enc decode_pts_five piece0 piece2)
    apply (simp only: uint_byte_masked)
    done
  also have "\<dots> = Inr (take_bit 33 p)" by (simp only: reassemble)
  finally show ?thesis by (simp add: p_def)
qed

lemma encode_pts_ints_range: "\<forall>b \<in> set (encode_pts_ints v). 0 \<le> b \<and> b < 256"
proof -
  have m: "(0 \<le> X AND 0xFF) \<and> (X AND 0xFF) < 256" for X :: int
    using take_bit_int_less_exp [of 8 X] by (simp add: byte_consts flip: take_bit_eq_mask)
  have b0: "0 \<le> push_bit 1 (push_bit 4 0x2 OR (Y AND 0x07)) OR (0x01::int) \<and>
        push_bit 1 (push_bit 4 0x2 OR (Y AND 0x07)) OR (0x01::int) < 256" for Y :: int
  proof -
    define t where "t = Y AND 0x07"
    have t: "0 \<le> t" "t < 2 ^ 6"
      using take_bit_int_less_exp [of 3 Y]
      by (simp_all add: t_def byte_consts flip: take_bit_eq_mask)
    have u: "0 \<le> 32 OR t" "32 OR t < 2 ^ 6"
      using t OR_upper [of 32 6 t] by simp_all
    then have w: "0 \<le> push_bit 1 (32 OR t)" "push_bit 1 (32 OR t) < 2 ^ 7"
      by (simp_all add: push_bit_eq_mult)
    have "0 \<le> push_bit 1 (32 OR t) OR 1" "push_bit 1 (32 OR t) OR 1 < 2 ^ 7"
      using w OR_upper [of "push_bit 1 (32 OR t)" 7 1] by simp_all
    then show ?thesis by (simp add: t_def)
  qed
  show ?thesis
    using m b0 by (simp add: encode_pts_ints_def Let_def)
qed










text \<open>
  The first byte \<open>encode_pts\<close> writes always carries \<open>0100\<close> in its upper four bits,
  whatever the value. So no field that starts with one of the nibbles \<open>0010\<close>,
  \<open>0011\<close> or \<open>0001\<close> of the transport-stream syntax comes back from
  \<open>encode_pts (decode_pts b)\<close> as it was.
\<close>

lemma encode_pts_prefix: "drop_bit 4 (encode_pts v ! 0) = (4 :: byte)"
proof -
  define t where "t = drop_bit 30 (v AND (push_bit 33 1 - 1)) AND 0x07"
  have e: "encode_pts v ! 0 = (word_of_int (push_bit 1 (push_bit 4 0x2 OR t) OR 0x01) :: byte)"
    by (simp only: encode_pts_def encode_pts_ints_def Let_def t_def list.map nth_Cons_0)
  have "t \<in> {0, 1, 2, 3, 4, 5, 6, 7}"
  proof -
    have "t = take_bit 3 (drop_bit 30 (v AND (push_bit 33 1 - 1)))"
      by (simp only: t_def byte_consts(1) take_bit_eq_mask)
    then have "0 \<le> t" "t < 8"
      using take_bit_int_less_exp [of 3 "drop_bit 30 (v AND (push_bit 33 1 - 1))"] by simp_all
    then show ?thesis by auto
  qed
  then show ?thesis
    unfolding e by (elim insertE emptyE) simp_all
qed

lemma round_trip_fails_for_standard_prefix:
  assumes "length b = 5" and "drop_bit 4 (b ! 0) \<in> {2, 3, 1 :: byte}" and "decode_pts b = Inr v"
  shows "encode_pts v \<noteq> b"
proof
  assume "encode_pts v = b"
  then have "drop_bit 4 (b ! 0) = (4 :: byte)" using encode_pts_prefix [of v] by simp
  with assms(2) show False by auto
qed

section \<open>What \<open>extract_pts\<close> accepts\<close>

lemma extract_pts_iff:
  "extract_pts p = Inr (Some (pts, pp, dts, dp)) \<longleftrightarrow>
     pes_header_at p (dts \<noteq> None) \<and> pp = payload_index p + 9 \<and>
     decode_pts (take 5 (drop (payload_index p + 9) p)) = Inr pts \<and>
     (case dts of None \<Rightarrow> dp = None
      | Some d \<Rightarrow> dp = Some (payload_index p + 9 + 5)
                 \<and> decode_pts (take 5 (drop (payload_index p + 9 + 5) p)) = Inr d)"
proof -
  define afc where "afc = drop_bit 4 (uint (p ! 3)) AND 0x03"
  define idx where "idx = (if afc = 2 \<or> afc = 3 then 4 + (1 + unat (p ! 4)) else 4)"
  define sync where "sync = (p ! 0)"
  define pusi where "pusi = uint (p ! 1) AND 0x40"
  define start where "start = take 3 (drop idx p)"
  define media where "media = stream_is_media (uint (p ! (idx + 3)))"
  define flags where "flags = uint (p ! (idx + 7))"
  define hdl where "hdl = uint (p ! (idx + 8))"
  define f80 where "f80 = flags AND 0x80"
  define f40 where "f40 = flags AND 0x40"
  define dpts where "dpts = decode_pts (take 5 (drop (idx + 9) p))"
  define ddts where "ddts = decode_pts (take 5 (drop (idx + 9 + 5) p))"
  define n where "n = length p"
  have I: "payload_index p = idx"
    unfolding payload_index_def idx_def afc_def ..
  have E: "extract_pts p =
     (if n \<noteq> 188 \<or> sync \<noteq> 0x47 then Inr None
      else
        if (afc = 2 \<or> afc = 3) \<and> 4 \<ge> n then Inr None
        else
          if afc = 2 \<or> idx \<ge> n then Inr None
          else if \<not> (pusi \<noteq> 0) then Inr None
          else if idx + 6 > n \<or> start \<noteq> [0x00, 0x00, 0x01]
            then Inr None
          else
            if \<not> media then Inr None
            else if idx + 7 \<ge> n \<or> idx + 8 \<ge> n then Inl IndexError
            else
              if f80 = 0 then Inr None
              else
                if idx + 9 + 5 > n \<or> hdl < 5 then Inr None
                else
                  (case dpts of
                     Inl e \<Rightarrow> Inl e
                   | Inr pts \<Rightarrow>
                       if f40 \<noteq> 0 then
                         if idx + 9 + 5 + 5 > n \<or> hdl < 10
                         then Inr None
                         else
                           (case ddts of
                              Inl e \<Rightarrow> Inl e
                            | Inr dts \<Rightarrow> Inr (Some (pts, idx + 9, Some dts, Some (idx + 9 + 5))))
                       else Inr (Some (pts, idx + 9, None, None))))"
    unfolding extract_pts_def Let_def TS_PACKET_SIZE_def afc_def idx_def sync_def pusi_def
      start_def media_def flags_def hdl_def f80_def f40_def dpts_def ddts_def n_def ..
  have H: "pes_header_at p b =
     (n = 188 \<and> sync = 0x47 \<and> afc \<noteq> 2 \<and> idx + 14 \<le> 188 \<and> pusi \<noteq> 0 \<and>
      start = [0x00, 0x00, 0x01] \<and> media \<and> f80 \<noteq> 0 \<and> 5 \<le> hdl \<and>
      (if b then f40 \<noteq> 0 \<and> idx + 19 \<le> 188 \<and> 10 \<le> hdl else f40 = 0))" for b
    unfolding pes_header_at_def I
    unfolding afc_def sync_def pusi_def start_def media_def flags_def hdl_def f80_def f40_def n_def ..
  show ?thesis
    unfolding E H I
    unfolding dpts_def [symmetric] ddts_def [symmetric]
    by (cases dts; cases dpts; cases ddts) (auto split: if_splits)
qed

lemma slice_assign_length:
  "pos + 5 \<le> length buf \<Longrightarrow> length field = 5 \<Longrightarrow> length (slice_assign buf pos field) = length buf"
  by (simp add: slice_assign_def)

lemma slice_assign_nth_before:
  "i < pos \<Longrightarrow> pos \<le> length buf \<Longrightarrow> slice_assign buf pos field ! i = buf ! i"
  by (simp add: slice_assign_def nth_append)

lemma slice_assign_nth_after:
  "pos + 5 \<le> i \<Longrightarrow> i < length buf \<Longrightarrow> length field = 5 \<Longrightarrow>
   slice_assign buf pos field ! i = buf ! i"
  by (auto simp add: slice_assign_def nth_append)

lemma slice_assign_field:
  "pos \<le> length buf \<Longrightarrow> length field = 5 \<Longrightarrow> take 5 (drop pos (slice_assign buf pos field)) = field"
  by (simp add: slice_assign_def)

lemma slice_assign_earlier_field:
  "k + 5 \<le> pos \<Longrightarrow> pos \<le> length buf \<Longrightarrow>
   take 5 (drop k (slice_assign buf pos field)) = take 5 (drop k buf)"
  by (simp add: slice_assign_def take_drop)

lemma take_drop_agree:
  assumes "length q = length p" "\<forall>i<k + n. q ! i = p ! i" "k + n \<le> length p"
  shows "take n (drop k q) = take n (drop k p)"
  using assms by (intro nth_equalityI) auto

lemma header_agree:
  assumes len: "length q = length p"
    and agree: "\<forall>i<payload_index p + 9. q ! i = p ! i"
    and hdr: "pes_header_at p b"
  shows "payload_index q = payload_index p \<and> pes_header_at q b"
proof -
  have n: "length p = 188" "payload_index p + 14 \<le> 188"
    using hdr by (simp_all add: pes_header_at_def)
  have four: "4 \<le> payload_index p" by (simp add: payload_index_def)
  have q: "q ! i = p ! i" if "i < payload_index p + 9" for i
    using agree that by blast
  have q0: "q ! 0 = p ! 0" "q ! 1 = p ! 1" "q ! 3 = p ! 3" "q ! 4 = p ! 4"
    using four by (simp_all add: q)
  have idx: "payload_index q = payload_index p"
    by (simp only: payload_index_def q0)
  have st: "take 3 (drop (payload_index p) q) = take 3 (drop (payload_index p) p)"
    using len agree n by (intro take_drop_agree) auto
  have qs: "q ! (payload_index p + 3) = p ! (payload_index p + 3)"
    "q ! (payload_index p + 7) = p ! (payload_index p + 7)"
    "q ! (payload_index p + 8) = p ! (payload_index p + 8)"
    by (simp_all add: q)
  show ?thesis
    using hdr unfolding pes_header_at_def idx
    by (simp only: q0 qs st len) simp
qed

section \<open>Claims about the timestamp codec and malformed packets\<close>

text \<open>
  C3. The claim: encoding the decoded value of any valid 5-byte timestamp field gives the
  field back, also for the prefix nibbles \<open>0011\<close> and \<open>0001\<close>. The code does not do
  this: \<open>encode_pts\<close> shifts the constant \<open>0x2\<close> by four and then the whole byte by
  one more, so the first byte it writes always starts with the nibble \<open>0100\<close>. The
  fields \<open>21 00 01 00 01\<close>, \<open>31 00 01 00 01\<close> and \<open>11 00 01 00 01\<close> (value 0
  under the three standard prefixes) all decode to 0 and all come back as
  \<open>41 00 01 00 01\<close>.
\<close>

theorem C3_round_trip_breaks_prefix:
  "decode_pts [0x21, 0x00, 0x01, 0x00, 0x01] = Inr 0
   \<and> decode_pts [0x31, 0x00, 0x01, 0x00, 0x01] = Inr 0
   \<and> decode_pts [0x11, 0x00, 0x01, 0x00, 0x01] = Inr 0
   \<and> encode_pts 0 = [0x41, 0x00, 0x01, 0x00, 0x01]
   \<and> encode_pts 0 \<noteq> [0x21, 0x00, 0x01, 0x00, 0x01]
   \<and> encode_pts 0 \<noteq> [0x31, 0x00, 0x01, 0x00, 0x01]
   \<and> encode_pts 0 \<noteq> [0x11, 0x00, 0x01, 0x00, 0x01]"
  by (simp add: decode_pts_def encode_pts_def encode_pts_ints_def)

text \<open>
  C7. The claim: every malformed or truncated packet is written out unchanged and never
  aborts processing. The code checks only \<open>idx + 6 > len(packet)\<close> before it reads
  \<open>packet[idx + 7]\<close> and \<open>packet[idx + 8]\<close>. On \<open>truncated_packet\<close> (sync byte,
  payload-unit-start, adaptation field of 176 bytes, then \<open>00 00 01 E0 00 00 80\<close> up to
  the end of the packet) the payload starts at index 181, the read at index 188 raises
  \<open>IndexError\<close>, and the loop of \<open>main\<close> ends with that exception on either side of
  the switch, with nothing written.
\<close>

theorem C7_truncated_pes_header_aborts:
  "length truncated_packet = TS_PACKET_SIZE
   \<and> extract_pts truncated_packet = Inl IndexError
   \<and> main_loop initial_state [(False, truncated_packet)] = Inl IndexError
   \<and> main_loop initial_state [(True, truncated_packet)] = Inl IndexError"
proof -
  have n: "length truncated_packet = TS_PACKET_SIZE"
    by (simp add: truncated_packet_def TS_PACKET_SIZE_def)
  have e: "extract_pts truncated_packet = Inl IndexError"
    by (simp add: extract_pts_def truncated_packet_def TS_PACKET_SIZE_def stream_is_media_def
        nth_append)
  have ne: "truncated_packet \<noteq> []"
    by (simp add: truncated_packet_def)
  show ?thesis
    by (simp add: n e ne initial_state_def live_packet_def placeholder_packet_def)
qed

theorem C7_truncated_pes_header_aborts_witness:
  "extract_pts truncated_packet = Inl IndexError
   \<and> main_loop initial_state [(True, truncated_packet)] = Inl IndexError"
  using C7_truncated_pes_header_aborts by simp

section \<open>Rewriting a live packet\<close>

text \<open>
  A packet that \<open>extract_pts\<close> accepts keeps its length under \<open>rewrite_packet\<close>,
  parses again at the same positions to the shifted timestamps, and is unchanged outside
  its timestamp fields.
\<close>

lemma rewrite_packet_parse:
  fixes off :: int
  assumes ex: "extract_pts packet = Inr (Some (pts, pp, dts, dp))"
  defines "out \<equiv> rewrite_packet off packet pts pp dts dp"
  shows "length out = length packet
    \<and> extract_pts out =
           Inr (Some (take_bit 33 (pts + off), pp, map_option (\<lambda>d. take_bit 33 (d + off)) dts, dp))
    \<and> (\<forall>i<length packet. \<not> (pp \<le> i \<and> i < pp + 5) \<longrightarrow>
           (\<forall>k. dp = Some k \<longrightarrow> \<not> (k \<le> i \<and> i < k + 5)) \<longrightarrow> out ! i = packet ! i)"
proof -
  from ex have hdr: "pes_header_at packet (dts \<noteq> None)" and pp: "pp = payload_index packet + 9"
    and rest: "case dts of None \<Rightarrow> dp = None
               | Some d \<Rightarrow> dp = Some (pp + 5)"
    by (auto simp add: extract_pts_iff split: option.splits)
  have n: "length packet = 188" "pp + 5 \<le> 188"
    using hdr pp by (simp_all add: pes_header_at_def)
  define e1 where "e1 = encode_pts ((pts + off) AND PTS_MASK)"
  define p1 where "p1 = slice_assign packet pp e1"
  have le1: "length e1 = 5" by (simp add: e1_def length_encode_pts)
  have d1: "decode_pts e1 = Inr (take_bit 33 (pts + off))"
    by (simp add: e1_def decode_encode and_PTS_MASK)
  have lp1: "length p1 = length packet"
    using n le1 by (simp add: p1_def slice_assign_length)
  have p1_before: "p1 ! i = packet ! i" if "i < pp" for i
    using that n by (simp add: p1_def slice_assign_nth_before)
  have p1_after: "p1 ! i = packet ! i" if "pp + 5 \<le> i" "i < length packet" for i
    using that le1 by (simp add: p1_def slice_assign_nth_after)
  have p1_field: "take 5 (drop pp p1) = e1"
    using n le1 by (simp add: p1_def slice_assign_field)
  show ?thesis
  proof (cases dts)
    case None
    then have dp: "dp = None" using rest by simp
    have out: "out = p1"
      by (simp add: out_def rewrite_packet_def Let_def None dp p1_def e1_def)
    have h: "payload_index p1 = payload_index packet \<and> pes_header_at p1 False"
      using hdr None p1_before pp by (intro header_agree lp1) auto
    have a: "length out = length packet" by (simp add: out lp1)
    have b: "extract_pts out = Inr (Some (take_bit 33 (pts + off), pp, None, None))"
      using h by (simp add: out extract_pts_iff pp [symmetric] p1_field d1)
    have c: "out ! i = packet ! i" if "i < length packet" "\<not> (pp \<le> i \<and> i < pp + 5)" for i
      using that p1_before [of i] p1_after [of i] by (auto simp add: out not_le not_less)
    show ?thesis using a b c by (simp add: None dp)
  next
    case (Some d)
    then have dp: "dp = Some (pp + 5)" using rest by simp
    from hdr Some have n2: "pp + 10 \<le> 188"
      using pp by (simp add: pes_header_at_def)
    define e2 where "e2 = encode_pts ((d + off) AND PTS_MASK)"
    define p2 where "p2 = slice_assign p1 (pp + 5) e2"
    have le2: "length e2 = 5" by (simp add: e2_def length_encode_pts)
    have d2: "decode_pts e2 = Inr (take_bit 33 (d + off))"
      by (simp add: e2_def decode_encode and_PTS_MASK)
    have out: "out = p2"
      by (simp add: out_def rewrite_packet_def Let_def Some dp p2_def p1_def e1_def e2_def)
    have lp2: "length p2 = length packet"
      using n n2 le2 lp1 by (simp add: p2_def slice_assign_length)
    have p2_before: "p2 ! i = p1 ! i" if "i < pp + 5" for i
      using that n n2 lp1 by (simp add: p2_def slice_assign_nth_before)
    have p2_after: "p2 ! i = p1 ! i" if "pp + 10 \<le> i" "i < length packet" for i
      using that le2 lp1 by (simp add: p2_def slice_assign_nth_after)
    have p2_field: "take 5 (drop (pp + 5) p2) = e2"
      using n n2 le2 lp1 by (simp add: p2_def slice_assign_field)
    have p2_first: "take 5 (drop pp p2) = e1"
      using n n2 lp1 p1_field by (simp add: p2_def slice_assign_earlier_field)
    have h: "payload_index p2 = payload_index packet \<and> pes_header_at p2 True"
      using hdr Some p1_before p2_before pp by (intro header_agree lp2) auto
    have a: "length out = length packet" by (simp add: out lp2)
    have b: "extract_pts out =
               Inr (Some (take_bit 33 (pts + off), pp, Some (take_bit 33 (d + off)), Some (pp + 5)))"
      using h by (simp add: out extract_pts_iff pp [symmetric] p2_field p2_first d1 d2)
    have c: "out ! i = packet ! i"
      if "i < length packet" "\<not> (pp \<le> i \<and> i < pp + 5)" "\<not> (pp + 5 \<le> i \<and> i < pp + 5 + 5)" for i
    proof (cases "i < pp")
      case True
      then show ?thesis using p1_before [of i] p2_before [of i] by (simp add: out)
    next
      case False
      with that have "pp + 10 \<le> i" by simp
      then show ?thesis using that p1_after [of i] p2_after [of i] by (simp add: out)
    qed
    show ?thesis using a b c by (simp add: Some dp)
  qed
qed


lemma live_packet_keeps_offset:
  assumes "first_live_pts st = Some f" and "live_packet st packet = Inr st'"
  shows "pts_offset st' = pts_offset st \<and> first_live_pts st' = Some f
         \<and> placeholder_last_pts st' = placeholder_last_pts st \<and> use_live st' = use_live st"
  using assms
  by (auto simp add: live_packet_def Let_def split: sum.splits option.splits prod.splits)

lemma placeholder_packet_keeps_offset:
  assumes "placeholder_packet st packet = Inr st'"
  shows "pts_offset st' = pts_offset st \<and> first_live_pts st' = first_live_pts st
         \<and> use_live st' = use_live st"
  using assms
  by (auto simp add: placeholder_packet_def Let_def split: sum.splits option.splits prod.splits if_splits)

lemma main_loop_keeps_offset:
  assumes "first_live_pts st = Some f" and "main_loop st inputs = Inr st'"
  shows "pts_offset st' = pts_offset st \<and> first_live_pts st' = Some f"
  using assms
proof (induction inputs arbitrary: st)
  case Nil
  then show ?case by simp
next
  case (Cons a inputs)
  obtain events packet where a: "a = (events, packet)" by (cases a)
  define st1 where "st1 = (if \<not> use_live st \<and> events then st\<lparr>use_live := True\<rparr> else st)"
  have st1: "first_live_pts st1 = Some f" "pts_offset st1 = pts_offset st"
    using Cons.prems(1) by (simp_all add: st1_def)
  show ?case
  proof (cases "packet = []")
    case True
    then show ?thesis
      using Cons.prems(2) Cons.IH [of st1] st1
      by (simp add: a st1_def [symmetric] split: if_splits)
  next
    case False
    show ?thesis
    proof (cases "use_live st1")
      case True
      with False Cons.prems(2) obtain st2 where
        s2: "live_packet st1 packet = Inr st2" and r: "main_loop st2 inputs = Inr st'"
        by (auto simp add: a st1_def [symmetric] Let_def split: sum.splits)
      from live_packet_keeps_offset [OF st1(1) s2] Cons.IH [of st2] r st1
      show ?thesis by simp
    next
      case live: False
      with False Cons.prems(2) obtain st2 where
        s2: "placeholder_packet st1 packet = Inr st2" and r: "main_loop st2 inputs = Inr st'"
        by (auto simp add: a st1_def [symmetric] Let_def split: sum.splits)
      from placeholder_packet_keeps_offset [OF s2] Cons.IH [of st2] r st1
      show ?thesis by simp
    qed
  qed
qed

lemma live_packet_rewrites:
  assumes f: "first_live_pts st = Some f" and o: "pts_offset st = Some off"
    and ex: "extract_pts packet = Inr (Some (pts, pp, dts, dp))"
  shows "live_packet st packet =
           Inr (st\<lparr>written := written st @ [rewrite_packet off packet pts pp dts dp]\<rparr>)"
  by (simp add: live_packet_def f o ex)

lemma live_packet_shifted:
  assumes f: "first_live_pts st = Some f" and o: "pts_offset st = Some off"
    and ok: "\<not> isl (extract_pts packet)"
  shows "\<exists>out. live_packet st packet = Inr (st\<lparr>written := written st @ [out]\<rparr>)
               \<and> shifted_copy off packet out"
proof (cases "extract_pts packet")
  case (Inl e)
  with ok show ?thesis by simp
next
  case (Inr parsed)
  show ?thesis
  proof (cases parsed)
    case None
    with Inr show ?thesis
      by (intro exI [of _ packet]) (simp add: live_packet_def shifted_copy_def)
  next
    case (Some t)
    obtain pts pp dts dp where t: "t = (pts, pp, dts, dp)" by (cases t)
    have ex: "extract_pts packet = Inr (Some (pts, pp, dts, dp))" by (simp add: Inr Some t)
    show ?thesis
      using live_packet_rewrites [OF f o ex] rewrite_packet_parse [OF ex, of off]
      by (intro exI [of _ "rewrite_packet off packet pts pp dts dp"])
         (simp add: shifted_copy_def ex take_bit_eq_mod)
  qed
qed

lemma main_loop_live_run:
  assumes "use_live st" and "first_live_pts st = Some f" and "pts_offset st = Some off"
    and "\<forall>x\<in>set (takeWhile (\<lambda>x. snd x \<noteq> []) inputs). \<not> isl (extract_pts (snd x))"
  shows "\<exists>st' outs. main_loop st inputs = Inr st'
           \<and> first_live_pts st' = Some f \<and> pts_offset st' = Some off
           \<and> written st' = written st @ outs
           \<and> list_all2 (shifted_copy off) (map snd (takeWhile (\<lambda>x. snd x \<noteq> []) inputs)) outs"
  using assms
proof (induction inputs arbitrary: st)
  case Nil
  then show ?case by simp
next
  case (Cons a inputs)
  obtain events packet where a: "a = (events, packet)" by (cases a)
  show ?case
  proof (cases "packet = []")
    case True
    with Cons.prems show ?thesis by (simp add: a)
  next
    case False
    with Cons.prems(4) have ok: "\<not> isl (extract_pts packet)"
      and rest: "\<forall>x\<in>set (takeWhile (\<lambda>x. snd x \<noteq> []) inputs). \<not> isl (extract_pts (snd x))"
      by (simp_all add: a)
    from live_packet_shifted [OF Cons.prems(2,3) ok] obtain out where
      lp: "live_packet st packet = Inr (st\<lparr>written := written st @ [out]\<rparr>)"
      and sc: "shifted_copy off packet out"
      by blast
    define st2 where "st2 = st\<lparr>written := written st @ [out]\<rparr>"
    have "use_live st2" "first_live_pts st2 = Some f" "pts_offset st2 = Some off"
      using Cons.prems(1-3) by (simp_all add: st2_def)
    from Cons.IH [OF this rest] obtain st' outs where
      r: "main_loop st2 inputs = Inr st'" "first_live_pts st' = Some f" "pts_offset st' = Some off"
        "written st' = written st2 @ outs"
        "list_all2 (shifted_copy off) (map snd (takeWhile (\<lambda>x. snd x \<noteq> []) inputs)) outs"
      by blast
    have "main_loop st (a # inputs) = Inr st'"
      using False Cons.prems(1) lp r(1) by (simp add: a st2_def)
    moreover have "written st' = written st @ (out # outs)"
      using r(4) by (simp add: st2_def)
    moreover have "list_all2 (shifted_copy off)
                     (map snd (takeWhile (\<lambda>x. snd x \<noteq> []) (a # inputs))) (out # outs)"
      using False sc r(5) by (simp add: a)
    ultimately show ?thesis using r(2,3) by blast
  qed
qed

text \<open>
  C5. Once the first live timestamp has been decoded (\<open>first_live_pts\<close> and
  \<open>pts_offset\<close> are set), the offset stays what it is through every later iteration of
  the loop. On the live side the loop then writes, for every packet it reads up to the
  end of the stream, one packet of the same length: a packet with a decodable timestamp
  is written with the offset added modulo \<open>2^33\<close> to its presentation timestamp and,
  when present, its decode timestamp (the written packet parses at the same positions to
  the shifted values) and equals the input at every byte outside the two 5-byte fields;
  any other packet is written as it came. The loop returns as long as no packet makes the
  parser raise.
\<close>

theorem C5_offset_fixed_and_applied:
  assumes f: "first_live_pts st = Some f" and o: "pts_offset st = Some off"
  shows "(\<forall>inputs st'. main_loop st inputs = Inr st' \<longrightarrow>
            first_live_pts st' = Some f \<and> pts_offset st' = Some off)
       \<and> (\<forall>packet pts pp dts dp. extract_pts packet = Inr (Some (pts, pp, dts, dp)) \<longrightarrow>
            (\<exists>out. live_packet st packet = Inr (st\<lparr>written := written st @ [out]\<rparr>)
               \<and> length out = length packet
               \<and> extract_pts out =
                   Inr (Some ((pts + off) mod 2 ^ 33, pp,
                              map_option (\<lambda>d. (d + off) mod 2 ^ 33) dts, dp))
               \<and> (\<forall>i<length packet. \<not> (pp \<le> i \<and> i < pp + 5) \<longrightarrow>
                     (\<forall>k. dp = Some k \<longrightarrow> \<not> (k \<le> i \<and> i < k + 5)) \<longrightarrow>
                     out ! i = packet ! i)))
       \<and> (use_live st \<longrightarrow>
            (\<forall>inputs.
               (\<forall>x\<in>set (takeWhile (\<lambda>x. snd x \<noteq> []) inputs). \<not> isl (extract_pts (snd x))) \<longrightarrow>
               (\<exists>st' outs. main_loop st inputs = Inr st'
                  \<and> first_live_pts st' = Some f \<and> pts_offset st' = Some off
                  \<and> written st' = written st @ outs
                  \<and> list_all2 (shifted_copy off)
                       (map snd (takeWhile (\<lambda>x. snd x \<noteq> []) inputs)) outs)))"
proof (intro conjI allI impI)
  fix inputs st'
  assume "main_loop st inputs = Inr st'"
  from main_loop_keeps_offset [OF f this] o
  show "first_live_pts st' = Some f" and "pts_offset st' = Some off" by simp_all
next
  fix packet pts pp dts dp
  assume ex: "extract_pts packet = Inr (Some (pts, pp, dts, dp))"
  show "\<exists>out. live_packet st packet = Inr (st\<lparr>written := written st @ [out]\<rparr>)
               \<and> length out = length packet
               \<and> extract_pts out =
                   Inr (Some ((pts + off) mod 2 ^ 33, pp,
                              map_option (\<lambda>d. (d + off) mod 2 ^ 33) dts, dp))
               \<and> (\<forall>i<length packet. \<not> (pp \<le> i \<and> i < pp + 5) \<longrightarrow>
                     (\<forall>k. dp = Some k \<longrightarrow> \<not> (k \<le> i \<and> i < k + 5)) \<longrightarrow>
                     out ! i = packet ! i)"
    using live_packet_rewrites [OF f o ex] rewrite_packet_parse [OF ex, of off]
    by (intro exI [of _ "rewrite_packet off packet pts pp dts dp"]) (simp add: take_bit_eq_mod)
next
  fix inputs :: "(bool \<times> bytes) list"
  assume "use_live st"
    and "\<forall>x\<in>set (takeWhile (\<lambda>x. snd x \<noteq> []) inputs). \<not> isl (extract_pts (snd x))"
  from main_loop_live_run [OF this(1) f o this(2)]
  show "\<exists>st' outs. main_loop st inputs = Inr st'
                  \<and> first_live_pts st' = Some f \<and> pts_offset st' = Some off
                  \<and> written st' = written st @ outs
                  \<and> list_all2 (shifted_copy off)
                       (map snd (takeWhile (\<lambda>x. snd x \<noteq> []) inputs)) outs" .
qed

lemma extract_pts_pes_packet:
  "extract_pts (pes_packet [b0, b1, b2, b3, b4]) =
     (case decode_pts [b0, b1, b2, b3, b4] of Inl e \<Rightarrow> Inl e | Inr v \<Rightarrow> Inr (Some (v, 13, None, None)))"
  by (simp add: extract_pts_def pes_packet_def TS_PACKET_SIZE_def stream_is_media_def
      split: sum.split)

lemma pes_packet_parses:
  "extract_pts (pes_packet [0x21, 0x00, 0x05, 0xBF, 0x21]) = Inr (Some (90000, 13, None, None))"
  "extract_pts (pes_packet [0x21, 0x00, 0x03, 0x5F, 0x91]) = Inr (Some (45000, 13, None, None))"
  "extract_pts (pes_packet [0x21, 0x00, 0x01, 0x00, 0x01]) = Inr (Some (0, 13, None, None))"
  "extract_pts (pes_packet [0x21, 0x00, 0x01, 0x46, 0x51]) = Inr (Some (9000, 13, None, None))"
  by (simp_all add: extract_pts_pes_packet decode_pts_def)

theorem C5_offset_fixed_and_applied_witness:
  "first_live_pts after_first_live = Some 0 \<and> pts_offset after_first_live = Some 90000
   \<and> (\<exists>st' out1 out2.
         main_loop after_first_live
           [(False, pes_packet [0x21, 0x00, 0x01, 0x46, 0x51]),
            (False, pes_packet [0x21, 0x00, 0x05, 0xBF, 0x21]),
            (False, [])] = Inr st'
       \<and> pts_offset st' = Some 90000
       \<and> written st' = [out1, out2]
       \<and> extract_pts out1 = Inr (Some (99000, 13, None, None))
       \<and> extract_pts out2 = Inr (Some (180000, 13, None, None)))"
proof -
  have f: "first_live_pts after_first_live = Some 0"
    and o: "pts_offset after_first_live = Some 90000"
    and w: "written after_first_live = []"
    and u: "use_live after_first_live"
    by (simp_all add: after_first_live_def)
  define inputs where
    "inputs = [(False, pes_packet [0x21, 0x00, 0x01, 0x46, 0x51]),
               (False, pes_packet [0x21, 0x00, 0x05, 0xBF, 0x21]),
               (False, ([] :: bytes))]"
  have ne: "pes_packet b \<noteq> []" for b by (simp add: pes_packet_def)
  have tw: "takeWhile (\<lambda>x. snd x \<noteq> []) inputs =
              [(False, pes_packet [0x21, 0x00, 0x01, 0x46, 0x51]),
               (False, pes_packet [0x21, 0x00, 0x05, 0xBF, 0x21])]"
    by (simp add: inputs_def ne)
  have ok: "\<forall>x\<in>set (takeWhile (\<lambda>x. snd x \<noteq> []) inputs). \<not> isl (extract_pts (snd x))"
    by (simp add: tw pes_packet_parses)
  from C5_offset_fixed_and_applied [OF f o] u ok
  obtain st' outs where
    r: "main_loop after_first_live inputs = Inr st'" "pts_offset st' = Some 90000"
      "written st' = written after_first_live @ outs"
      "list_all2 (shifted_copy 90000) (map snd (takeWhile (\<lambda>x. snd x \<noteq> []) inputs)) outs"
    by blast
  from r(4) obtain out1 out2 where
    outs: "outs = [out1, out2]"
    and s1: "shifted_copy 90000 (pes_packet [0x21, 0x00, 0x01, 0x46, 0x51]) out1"
    and s2: "shifted_copy 90000 (pes_packet [0x21, 0x00, 0x05, 0xBF, 0x21]) out2"
    by (auto simp add: tw list_all2_Cons1)
  have "extract_pts out1 = Inr (Some (99000, 13, None, None))"
    "extract_pts out2 = Inr (Some (180000, 13, None, None))"
    using s1 s2 by (simp_all add: shifted_copy_def pes_packet_parses)
  with r outs f o w show ?thesis
    unfolding inputs_def by auto
qed

lemma offset_law:
  "(ph - pts) AND PTS_MASK = (ph - pts) mod 2 ^ 33"
  "(pts + (ph - pts) mod 2 ^ 33) mod 2 ^ 33 = ph mod (2 ^ 33 :: int)"
  by (simp_all add: and_PTS_MASK take_bit_eq_mod mod_simps)

text \<open>
  C1. At the first decodable live packet, with \<open>placeholder_last_pts\<close> observed, the
  splicer sets \<open>pts_offset\<close> to \<open>(placeholder_last_pts - first_live_pts) mod 2^33\<close>,
  and the first live timestamp plus that offset is congruent to \<open>placeholder_last_pts\<close>
  modulo \<open>2^33\<close>. In the scenario (placeholder packets with timestamps 90000 and 45000,
  then live packets with 0 and 9000) the offset is 90000 and the packet carrying 9000 is
  written carrying 99000.
\<close>

theorem C1_offset_closes_the_gap:
  "(\<forall>(st::splice_state) packet ph pts pp dts dp.
       first_live_pts st = None \<longrightarrow> placeholder_last_pts st = Some ph \<longrightarrow>
       extract_pts packet = Inr (Some (pts, pp, dts, dp)) \<longrightarrow>
       (\<exists>st'. live_packet st packet = Inr st'
          \<and> first_live_pts st' = Some pts \<and> placeholder_last_pts st' = Some ph
          \<and> pts_offset st' = Some ((ph - pts) mod 2 ^ 33)
          \<and> (pts + (ph - pts) mod 2 ^ 33) mod 2 ^ 33 = ph mod 2 ^ 33))
   \<and> (\<exists>st. main_loop initial_state
              [(False, pes_packet [0x21, 0x00, 0x05, 0xBF, 0x21]),
               (False, pes_packet [0x21, 0x00, 0x03, 0x5F, 0x91]),
               (True, pes_packet [0x21, 0x00, 0x01, 0x00, 0x01]),
               (False, pes_packet [0x21, 0x00, 0x01, 0x46, 0x51])] = Inr st
          \<and> placeholder_last_pts st = Some 90000 \<and> first_live_pts st = Some 0
          \<and> pts_offset st = Some 90000
          \<and> map extract_pts (written st) =
              [Inr (Some (90000, 13, None, None)), Inr (Some (45000, 13, None, None)),
               Inr (Some (90000, 13, None, None)), Inr (Some (99000, 13, None, None))])"
proof (intro conjI allI impI)
  fix st :: splice_state and packet ph pts pp dts dp
  assume "first_live_pts st = None" "placeholder_last_pts st = Some ph"
    "extract_pts packet = Inr (Some (pts, pp, dts, dp))"
  then show "\<exists>st'. live_packet st packet = Inr st'
          \<and> first_live_pts st' = Some pts \<and> placeholder_last_pts st' = Some ph
          \<and> pts_offset st' = Some ((ph - pts) mod 2 ^ 33)
          \<and> (pts + (ph - pts) mod 2 ^ 33) mod 2 ^ 33 = ph mod 2 ^ 33"
    by (simp add: live_packet_def offset_law(1) mod_simps)
next
  have ne: "pes_packet f \<noteq> []" for f by (simp add: pes_packet_def)
  have r1: "rewrite_packet 90000 (pes_packet [0x21, 0x00, 0x01, 0x00, 0x01]) 0 13 None None
            = pes_packet [0x41, 0x00, 0x05, 0xBF, 0x21]"
    by (simp add: rewrite_packet_def slice_assign_def pes_packet_def PTS_MASK_def encode_pts_def encode_pts_ints_def)
  have r2: "rewrite_packet 90000 (pes_packet [0x21, 0x00, 0x01, 0x46, 0x51]) 9000 13 None None
            = pes_packet [0x41, 0x00, 0x07, 0x05, 0x71]"
    by (simp add: rewrite_packet_def slice_assign_def pes_packet_def PTS_MASK_def encode_pts_def encode_pts_ints_def)
  have p: "extract_pts (pes_packet [0x41, 0x00, 0x05, 0xBF, 0x21]) = Inr (Some (90000, 13, None, None))"
    "extract_pts (pes_packet [0x41, 0x00, 0x07, 0x05, 0x71]) = Inr (Some (99000, 13, None, None))"
    by (simp_all add: extract_pts_pes_packet decode_pts_def)
  show "\<exists>st. main_loop initial_state
              [(False, pes_packet [0x21, 0x00, 0x05, 0xBF, 0x21]),
               (False, pes_packet [0x21, 0x00, 0x03, 0x5F, 0x91]),
               (True, pes_packet [0x21, 0x00, 0x01, 0x00, 0x01]),
               (False, pes_packet [0x21, 0x00, 0x01, 0x46, 0x51])] = Inr st
          \<and> placeholder_last_pts st = Some 90000 \<and> first_live_pts st = Some 0
          \<and> pts_offset st = Some 90000
          \<and> map extract_pts (written st) =
              [Inr (Some (90000, 13, None, None)), Inr (Some (45000, 13, None, None)),
               Inr (Some (90000, 13, None, None)), Inr (Some (99000, 13, None, None))]"
    by (simp add: initial_state_def ne placeholder_packet_def live_packet_def pes_packet_parses
        PTS_MASK_def r1 r2 p)
qed

theorem C1_offset_closes_the_gap_witness:
  "\<exists>st'. live_packet placeholder_seen (pes_packet [0x21, 0x00, 0x01, 0x00, 0x01]) = Inr st'
      \<and> first_live_pts st' = Some 0 \<and> pts_offset st' = Some 90000"
proof -
  have a: "first_live_pts placeholder_seen = None"
    and b: "placeholder_last_pts placeholder_seen = Some 90000"
    by (simp_all add: placeholder_seen_def)
  from C1_offset_closes_the_gap a b pes_packet_parses(3)
  obtain st' where
    "live_packet placeholder_seen (pes_packet [0x21, 0x00, 0x01, 0x00, 0x01]) = Inr st'"
    "first_live_pts st' = Some 0" "pts_offset st' = Some ((90000 - 0) mod 2 ^ 33)"
    by blast
  then show ?thesis by auto
qed






section \<open>Claims about the stub supervisor\<close>

text \<open>
  C9. For an operation id the supervisor does not know, \<open>stop_pipeline\<close> returns
  \<open>False\<close>, \<open>get_status\<close> and \<open>get_metrics\<close> return \<open>None\<close>, none of them
  raises, and the manager is left exactly as it was.
\<close>

theorem C9_absent_op_id:
  assumes "pipelines m op_id = None"
  shows "stop_pipeline ended now m op_id = Inr (False, m)
       \<and> get_status m op_id = Inr (None, m)
       \<and> get_metrics now m op_id = Inr (None, m)"
  using assms by (simp add: stop_pipeline_def get_status_def get_metrics_def)

theorem C9_absent_op_id_witness:
  "stop_pipeline 1 2 init_manager ''unknown'' = Inr (False, init_manager)
   \<and> get_status init_manager ''unknown'' = Inr (None, init_manager)
   \<and> get_metrics 2 init_manager ''unknown'' = Inr (None, init_manager)"
proof -
  have "pipelines init_manager ''unknown'' = None"
    by (simp add: init_manager_def)
  from C9_absent_op_id [OF this] show ?thesis by blast
qed

text \<open>
  C4. The claim: \<open>start\<close> fails with a configuration error on an unknown profile name
  and with a value error on an operation id that is already active, and changes nothing
  in either case. The stub does neither. On the freshly built manager a start with the
  profile name \<open>no-such-profile\<close> succeeds under the profile \<open>stub\<close> and records the
  operation; a second start under the same operation id succeeds too and replaces the
  recorded status.
\<close>

theorem C4_start_rejects_counterexample:
  "\<not> isl first_start
   \<and> profile (fst (projr first_start)) = ''stub''
   \<and> pipelines (snd (projr first_start)) ''op1'' = Some (fst (projr first_start))
   \<and> pipelines init_manager ''op1'' = None
   \<and> \<not> isl second_start
   \<and> pipelines (snd (projr second_start)) ''op1'' = Some (fst (projr second_start))
   \<and> channel (fst (projr second_start)) = ''other''
   \<and> channel (fst (projr first_start)) = ''amigadev''"
  by (simp add: first_start_def second_start_def start_pipeline_def resolve_profile_def
      init_manager_def stub_profile_def Let_def)

text \<open>
  C4, as the stub behaves. While the registry holds a profile (it always holds \<open>stub\<close>),
  \<open>start_pipeline\<close> never fails: the profile is the named one if the registry has it
  and the first registered one otherwise, and the operation id, whether new or already
  active, is bound to a fresh status in state \<open>running\<close>, fresh metrics and a new
  metrics task.
\<close>

theorem C4_start_never_rejects:
  assumes "profiles m \<noteq> []"
  shows "\<exists>p status.
           resolve_profile m profile_name = Inr p
         \<and> (case map_of (profiles m) profile_name of
               Some q \<Rightarrow> p = q | None \<Rightarrow> p = snd (hd (profiles m)))
         \<and> start_pipeline now m op_id chan profile_name =
             Inr (status,
                  m\<lparr>pipelines := (pipelines m)(op_id \<mapsto> status),
                    metrics := (metrics m)(op_id \<mapsto> fresh_metrics op_id),
                    metric_tasks := (metric_tasks m)(op_id \<mapsto> tasks_created m),
                    tasks_created := Suc (tasks_created m)\<rparr>)
         \<and> status_op_id status = op_id \<and> channel status = chan
         \<and> profile status = name p \<and> state status = ''running''
         \<and> started_at status = now \<and> ended_at status = None"
proof -
  from assms obtain p where p: "resolve_profile m profile_name = Inr p"
    and q: "case map_of (profiles m) profile_name of
               Some q \<Rightarrow> p = q | None \<Rightarrow> p = snd (hd (profiles m))"
    by (cases "profiles m"; cases "map_of (profiles m) profile_name")
       (auto simp add: resolve_profile_def)
  show ?thesis
    using p q by (simp add: start_pipeline_def Let_def)
qed

theorem C4_start_never_rejects_witness:
  "\<exists>status m'. start_pipeline 0 init_manager ''op1'' ''amigadev'' ''no-such-profile'' = Inr (status, m')
     \<and> profile status = ''stub'' \<and> state status = ''running''"
proof -
  have "profiles init_manager \<noteq> []" by (simp add: init_manager_def)
  from C4_start_never_rejects [OF this, of "''no-such-profile''" 0 "''op1''" "''amigadev''"]
  obtain p status m' where
    "case map_of (profiles init_manager) ''no-such-profile'' of
               Some q \<Rightarrow> p = q | None \<Rightarrow> p = snd (hd (profiles init_manager))"
    "start_pipeline 0 init_manager ''op1'' ''amigadev'' ''no-such-profile'' = Inr (status, m')"
    "profile status = name p" "state status = ''running''"
    by blast
  then show ?thesis
    by (auto simp add: init_manager_def stub_profile_def)
qed

section \<open>Claims about the TCP broadcast\<close>

lemma write_clients_returns:
  assumes "\<forall>w\<in>set ws. drains_or_drops (env w)"
  shows "write_clients env chunk ws st dead =
           Returned (st\<lparr>handed := foldl (hand_over chunk) (handed st) ws\<rparr>,
                     dead @ filter (\<lambda>w. env w \<noteq> Drained) ws)"
  using assms
proof (induction ws arbitrary: st dead)
  case Nil
  then show ?case by simp
next
  case (Cons w ws)
  then have w: "drains_or_drops (env w)" and ws: "\<forall>w\<in>set ws. drains_or_drops (env w)"
    by simp_all
  from w show ?case
    unfolding drains_or_drops_def
    by (elim disjE) (simp_all add: Cons.IH [OF ws] Let_def hand_over_def [symmetric])
qed

lemma handed_foldl:
  assumes "distinct ws"
  shows "foldl (hand_over chunk) h ws v = (if v \<in> set ws then h v @ [chunk] else h v)"
  using assms
proof (induction ws arbitrary: h)
  case Nil
  then show ?case by simp
next
  case (Cons w ws)
  then have d: "distinct ws" and w: "w \<notin> set ws" by simp_all
  have "foldl (hand_over chunk) h (w # ws) v = foldl (hand_over chunk) (hand_over chunk h w) ws v"
    by simp
  also have "\<dots> = (if v \<in> set ws then hand_over chunk h w v @ [chunk] else hand_over chunk h w v)"
    by (rule Cons.IH [OF d])
  also have "\<dots> = (if v \<in> set (w # ws) then h v @ [chunk] else h v)"
    using w by (auto simp add: hand_over_def)
  finally show ?case .
qed

lemma removeAll_filter: "removeAll d xs = filter (\<lambda>w. w \<noteq> d) xs"
  by (induction xs) auto

lemma foldl_close_client:
  "foldl close_client st dead =
     st\<lparr>clients := filter (\<lambda>w. w \<notin> set dead) (clients st), closed := closed st \<union> set dead\<rparr>"
proof (induction dead arbitrary: st)
  case Nil
  then show ?case by simp
next
  case (Cons d dead)
  have "foldl close_client st (d # dead) = foldl close_client (close_client st d) dead"
    by simp
  also have "\<dots> = (close_client st d)\<lparr>clients := filter (\<lambda>w. w \<notin> set dead) (clients (close_client st d)),
                      closed := closed (close_client st d) \<union> set dead\<rparr>"
    by (rule Cons.IH)
  also have "\<dots> = st\<lparr>clients := filter (\<lambda>w. w \<notin> set (d # dead)) (clients st),
                      closed := closed st \<union> set (d # dead)\<rparr>"
    by (simp add: close_client_def removeAll_filter conj_commute)
  finally show ?case .
qed

lemma broadcast_returns:
  assumes ok: "\<forall>w\<in>set (clients st). drains_or_drops (env w)" and d: "distinct (clients st)"
  shows "broadcast env chunk st =
           Returned (st\<lparr>handed := (\<lambda>v. if v \<in> set (clients st) then handed st v @ [chunk] else handed st v),
                        clients := filter (\<lambda>w. env w = Drained) (clients st),
                        closed := closed st \<union> {w \<in> set (clients st). env w \<noteq> Drained}\<rparr>)"
proof -
  have h: "foldl (hand_over chunk) (handed st) (clients st)
           = (\<lambda>v. if v \<in> set (clients st) then handed st v @ [chunk] else handed st v)"
    using d by (simp add: handed_foldl fun_eq_iff)
  have f: "filter (\<lambda>w. w \<notin> set (filter (\<lambda>w. env w \<noteq> Drained) (clients st))) (clients st)
           = filter (\<lambda>w. env w = Drained) (clients st)"
    by (rule filter_cong) auto
  have f2: "filter (\<lambda>w. w \<in> set (clients st) \<longrightarrow> env w = Drained) (clients st)
           = filter (\<lambda>w. env w = Drained) (clients st)"
    by (rule filter_cong) auto
  show ?thesis
    by (simp add: broadcast_def write_clients_returns [OF ok] foldl_close_client h f f2)
qed

lemma write_clients_prefix:
  assumes "\<forall>w\<in>set pre. drains_or_drops (env w)"
  shows "write_clients env chunk (pre @ rest) st dead =
           write_clients env chunk rest
             (st\<lparr>handed := foldl (hand_over chunk) (handed st) pre\<rparr>)
             (dead @ filter (\<lambda>w. env w \<noteq> Drained) pre)"
  using assms
proof (induction pre arbitrary: st dead)
  case Nil
  then show ?case by simp
next
  case (Cons w ws)
  then have w: "drains_or_drops (env w)" and ws: "\<forall>w\<in>set ws. drains_or_drops (env w)"
    by simp_all
  from w show ?case
    unfolding drains_or_drops_def
    by (elim disjE) (simp_all add: Cons.IH [OF ws] Let_def hand_over_def [symmetric])
qed

lemma handed_prefix:
  assumes "distinct (pre @ w # post)"
  shows "(foldl (hand_over chunk) h pre)(w := foldl (hand_over chunk) h pre w @ [chunk])
           = (\<lambda>v. if v \<in> set pre \<or> v = w then h v @ [chunk] else h v)"
proof -
  have d: "distinct pre" and w: "w \<notin> set pre" using assms by simp_all
  show ?thesis
    using w by (auto simp add: fun_eq_iff handed_foldl [OF d])
qed

lemma broadcast_stalls:
  assumes c: "clients st = pre @ w # post" and d: "distinct (clients st)"
    and ok: "\<forall>v\<in>set pre. drains_or_drops (env v)" and w: "env w = Stalled"
  shows "broadcast env chunk st =
           Suspended (st\<lparr>handed := (\<lambda>v. if v \<in> set pre \<or> v = w then handed st v @ [chunk]
                                       else handed st v)\<rparr>)"
proof -
  have dd: "distinct (pre @ w # post)" using c d by simp
  show ?thesis
    by (simp add: broadcast_def c write_clients_prefix [OF ok] w Let_def
        handed_prefix [OF dd])
qed

lemma broadcast_fails:
  assumes c: "clients st = pre @ w # post" and d: "distinct (clients st)"
    and ok: "\<forall>v\<in>set pre. drains_or_drops (env v)" and w: "env w = Raised e"
    and e: "e \<noteq> ConnectionResetError" "e \<noteq> BrokenPipeError"
  shows "broadcast env chunk st =
           Failed e (st\<lparr>handed := (\<lambda>v. if v \<in> set pre \<or> v = w then handed st v @ [chunk]
                                      else handed st v)\<rparr>)"
proof -
  have dd: "distinct (pre @ w # post)" using c d by simp
  show ?thesis
    by (simp add: broadcast_def c write_clients_prefix [OF ok] w e Let_def
        handed_prefix [OF dd])
qed

lemma client_finished_gone:
  assumes "w \<notin> set (clients st)" and "w \<in> closed st"
  shows "client_finished cfg st w =
           (if stop_on_disconnect cfg \<and> clients st = [] then st\<lparr>shutdown_event := True\<rparr> else st)"
  using assms by (simp add: client_finished_def close_client_def insert_absorb)

lemma finished_dropped:
  assumes "\<forall>w\<in>set ds. w \<notin> set (clients st) \<and> w \<in> closed st"
  shows "foldl (client_finished cfg) st ds =
           (if stop_on_disconnect cfg \<and> clients st = [] \<and> ds \<noteq> []
            then st\<lparr>shutdown_event := True\<rparr> else st)"
  using assms
proof (induction ds arbitrary: st)
  case Nil
  then show ?case by simp
next
  case (Cons d ds)
  define st1 where "st1 = client_finished cfg st d"
  have s1: "st1 = (if stop_on_disconnect cfg \<and> clients st = [] then st\<lparr>shutdown_event := True\<rparr> else st)"
    using Cons.prems by (simp add: st1_def client_finished_gone)
  have "\<forall>w\<in>set ds. w \<notin> set (clients st1) \<and> w \<in> closed st1"
    using Cons.prems by (simp add: s1)
  from Cons.IH [OF this] show ?case
    by (simp add: st1_def [symmetric]) (simp add: s1)
qed

lemma consumer_is_loop:
  assumes "wait_for_client cfg \<longrightarrow> client_ready st"
  shows "stdin_consumer cfg st chunks schedule = read_loop cfg st chunks schedule"
  using assms by (cases schedule) (auto simp add: stdin_consumer.simps)

lemma read_loop_step:
  assumes d: "distinct (clients st)" and run: "\<not> shutdown_event st"
    and ok: "\<forall>w\<in>set (clients st). drains_or_drops (env w)" and ne: "chunk \<noteq> []"
  shows "read_loop cfg st (chunk # chunks) (([], env) # schedule) =
           (let st' = st\<lparr>total_bytes := total_bytes st + length chunk,
                         handed := (\<lambda>v. if v \<in> set (clients st) then handed st v @ [chunk]
                                         else handed st v),
                         clients := filter (\<lambda>w. env w = Drained) (clients st),
                         closed := closed st \<union> {w \<in> set (clients st). env w \<noteq> Drained}\<rparr>
            in if stop_on_disconnect cfg \<and> clients st' = [] \<and> clients st \<noteq> []
               then Cancelled (st'\<lparr>shutdown_event := True\<rparr>)
               else read_loop cfg st' chunks schedule)"
proof -
  define st0 where "st0 = st\<lparr>total_bytes := total_bytes st + length chunk\<rparr>"
  define st' where
    "st' = st\<lparr>total_bytes := total_bytes st + length chunk,
                         handed := (\<lambda>v. if v \<in> set (clients st) then handed st v @ [chunk]
                                         else handed st v),
                         clients := filter (\<lambda>w. env w = Drained) (clients st),
                         closed := closed st \<union> {w \<in> set (clients st). env w \<noteq> Drained}\<rparr>"
  define ds where "ds = filter (\<lambda>w. w \<notin> set (clients st')) (clients st)"
  have d0: "distinct (clients st0)" and ok0: "\<forall>w\<in>set (clients st0). drains_or_drops (env w)"
    using d ok by (simp_all add: st0_def)
  have b: "broadcast env chunk st0 = Returned st'"
    using broadcast_returns [OF ok0 d0, of chunk] unfolding st'_def st0_def by (simp cong: if_cong)
  have gone: "\<forall>w\<in>set ds. w \<notin> set (clients st') \<and> w \<in> closed st'"
    by (auto simp add: ds_def st'_def)
  have empty: "ds \<noteq> []" if "clients st' = []" "clients st \<noteq> []"
    using that by (cases "clients st") (auto simp add: ds_def)
  have rest: "ds = []" if "clients st = []"
    using that by (simp add: ds_def)
  have fin: "foldl (client_finished cfg) st' ds =
           (if stop_on_disconnect cfg \<and> clients st' = [] \<and> clients st \<noteq> []
            then st'\<lparr>shutdown_event := True\<rparr> else st')"
    using finished_dropped [OF gone, of cfg] empty rest by auto
  have sh: "\<not> shutdown_event st'" using run by (simp add: st'_def)
  have main: "read_loop cfg st (chunk # chunks) (([], env) # schedule) =
          (if stop_on_disconnect cfg \<and> clients st' = [] \<and> clients st \<noteq> []
           then Cancelled (st'\<lparr>shutdown_event := True\<rparr>)
           else read_loop cfg st' chunks schedule)"
    using run ne sh
    by (simp add: read_loop.simps st0_def [symmetric] b ds_def [symmetric] fin Let_def)
  show ?thesis
    unfolding Let_def st'_def [symmetric] by (rule main)
qed

lemma handle_client_distinct:
  "distinct (clients st) \<Longrightarrow> distinct (clients (handle_client cfg st ev))"
  by (cases ev) (simp_all add: client_finished_def close_client_def Let_def distinct_removeAll)

lemma handle_clients_distinct:
  "distinct (clients st) \<Longrightarrow> distinct (clients (foldl (handle_client cfg) st evs))"
  by (induction evs arbitrary: st) (simp_all add: handle_client_distinct)

lemma client_finished_clients:
  "clients (client_finished cfg st w) = removeAll w (clients st)"
  by (simp add: client_finished_def close_client_def Let_def)

lemma clients_finished_distinct:
  "distinct (clients st) \<Longrightarrow> distinct (clients (foldl (client_finished cfg) st ds))"
  by (induction ds arbitrary: st) (simp_all add: client_finished_clients distinct_removeAll)

lemma read_loop_never_blocks:
  assumes "distinct (clients st)" and "\<forall>b\<in>set schedule. \<forall>w. drains_or_drops (snd b w)"
  shows "(\<forall>s. read_loop cfg st chunks schedule \<noteq> Suspended s)
       \<and> (\<forall>e s. read_loop cfg st chunks schedule \<noteq> Failed e s)"
  using assms
proof (induction schedule arbitrary: st chunks)
  case Nil
  then show ?case by (simp add: read_loop.simps)
next
  case (Cons b schedule)
  obtain arrivals env where b: "b = (arrivals, env)" by (cases b)
  define st1 where "st1 = foldl (handle_client cfg) st arrivals"
  have d1: "distinct (clients st1)"
    using Cons.prems(1) by (simp add: st1_def handle_clients_distinct)
  have ok: "\<forall>w. drains_or_drops (env w)" and oks: "\<forall>b\<in>set schedule. \<forall>w. drains_or_drops (snd b w)"
    using Cons.prems(2) by (simp_all add: b)
  show ?case
  proof (cases chunks)
    case Nil
    then show ?thesis by (simp add: b Let_def read_loop.simps)
  next
    case (Cons data later)
    define st0 where "st0 = st1\<lparr>total_bytes := total_bytes st1 + length data\<rparr>"
    have d0: "distinct (clients st0)" and ok0: "\<forall>w\<in>set (clients st0). drains_or_drops (env w)"
      using d1 ok by (simp_all add: st0_def)
    from broadcast_returns [OF ok0 d0, of data] obtain st2 where
      r: "broadcast env data st0 = Returned st2"
      and c2: "clients st2 = filter (\<lambda>w. env w = Drained) (clients st0)"
      by simp
    define st3 where
      "st3 = foldl (client_finished cfg) st2 (filter (\<lambda>w. w \<notin> set (clients st2)) (clients st1))"
    have "distinct (clients st2)" using d0 c2 by simp
    then have d3: "distinct (clients st3)"
      by (simp add: st3_def clients_finished_distinct)
    note ih = Cons.IH [OF d3 oks, of later]
    show ?thesis
      using ih
      by (simp add: b Cons read_loop.simps st1_def [symmetric] Let_def st0_def [symmetric] r
          st3_def [symmetric])
  qed
qed

lemma stdin_consumer_never_blocks:
  assumes "distinct (clients st)" and "\<forall>b\<in>set schedule. \<forall>w. drains_or_drops (snd b w)"
  shows "(\<forall>s. stdin_consumer cfg st chunks schedule \<noteq> Suspended s)
       \<and> (\<forall>e s. stdin_consumer cfg st chunks schedule \<noteq> Failed e s)"
  using assms
proof (induction schedule arbitrary: st)
  case Nil
  then show ?case
    using read_loop_never_blocks [of st "[]" cfg chunks] by (simp add: stdin_consumer.simps read_loop.simps)
next
  case (Cons b schedule)
  obtain arrivals env where b: "b = (arrivals, env)" by (cases b)
  show ?case
  proof (cases "wait_for_client cfg \<and> \<not> client_ready st")
    case True
    define st1 where "st1 = foldl (handle_client cfg) st arrivals"
    have d1: "distinct (clients st1)"
      using Cons.prems(1) by (simp add: st1_def handle_clients_distinct)
    have oks: "\<forall>b\<in>set schedule. \<forall>w. drains_or_drops (snd b w)"
      using Cons.prems(2) by simp
    from Cons.IH [OF d1 oks] True show ?thesis
      by (simp add: b stdin_consumer.simps st1_def [symmetric] Let_def)
  next
    case False
    then have "wait_for_client cfg \<longrightarrow> client_ready st" by blast
    then have "stdin_consumer cfg st chunks (b # schedule) = read_loop cfg st chunks (b # schedule)"
      by (rule consumer_is_loop)
    then show ?thesis
      using read_loop_never_blocks [OF Cons.prems, of cfg chunks] by simp
  qed
qed

lemma read_loop_suspended:
  assumes "\<not> shutdown_event st" and "chunk \<noteq> []"
    and "broadcast env chunk (st\<lparr>total_bytes := total_bytes st + length chunk\<rparr>) = Suspended s"
  shows "read_loop cfg st (chunk # chunks) (([], env) # schedule) = Suspended s"
  using assms by (simp add: Let_def read_loop.simps)

lemma read_loop_failed:
  assumes "\<not> shutdown_event st" and "chunk \<noteq> []"
    and "broadcast env chunk (st\<lparr>total_bytes := total_bytes st + length chunk\<rparr>) = Failed e s"
  shows "read_loop cfg st (chunk # chunks) (([], env) # schedule) = Failed e s"
  using assms by (simp add: Let_def read_loop.simps)

text \<open>
  C2. The claim: a client whose write stalls or errors is dropped without the broadcast or
  the read loop ever blocking on it. The code awaits \<open>drain()\<close> of each writer in
  turn with no timeout and catches only \<open>ConnectionResetError\<close> and
  \<open>BrokenPipeError\<close>. With three clients of which the second has stopped reading,
  the broadcast of a chunk stays suspended at the second client: it is still in the
  client set, the third client has been handed nothing, and the read task does not reach
  its next chunk. With the second client failing on another error the exception leaves
  the broadcast and the read task, and again the third client has been handed nothing.
\<close>

theorem C2_stalled_client_counterexample:
  "broadcast second_stalls first_chunk three_clients =
     Suspended (three_clients\<lparr>handed := (\<lambda>w. [])(1 := [first_chunk], 2 := [first_chunk])\<rparr>)
   \<and> stdin_consumer keep_serving three_clients [first_chunk, next_chunk]
        [([], second_stalls), ([], all_drain)] =
     Suspended (three_clients\<lparr>total_bytes := 1,
                              handed := (\<lambda>w. [])(1 := [first_chunk], 2 := [first_chunk])\<rparr>)
   \<and> broadcast second_times_out first_chunk three_clients =
     Failed OSError (three_clients\<lparr>handed := (\<lambda>w. [])(1 := [first_chunk], 2 := [first_chunk])\<rparr>)
   \<and> stdin_consumer keep_serving three_clients [first_chunk, next_chunk]
        [([], second_times_out), ([], all_drain)] =
     Failed OSError (three_clients\<lparr>total_bytes := 1,
                              handed := (\<lambda>w. [])(1 := [first_chunk], 2 := [first_chunk])\<rparr>)"
  by (simp add: broadcast_def three_clients_def second_stalls_def second_times_out_def
      first_chunk_def keep_serving_def stdin_consumer.simps read_loop.simps)

text \<open>
  C2, as the code behaves, for a read task that is past its wait for the first client and
  reads a non-empty chunk while no connection arrives or ends. If every connected client's
  write either completes or fails with a connection reset or a broken pipe, the broadcast
  returns: every client has been handed the chunk, the clients whose write failed are
  closed and removed from the client set, the others stay. The read task then goes on
  with its next read, and a second chunk is handed to every client that remained; the one
  exception is \<open>--stop-on-disconnect\<close> with no client left, where the handler of the
  last client removed cancels the read task. As long as all later writes complete or fail
  in one of these two ways the read task is never left suspended or failed. If the write
  of some client stalls, or fails with another error, while those before it in the
  iteration complete or fail as above, then that client is not removed, the clients
  after it are not handed the chunk, and the broadcast and the read task stay suspended
  at that client, or end with that error.
\<close>

theorem C2_failed_clients_dropped:
  assumes d: "distinct (clients st)" and run: "\<not> shutdown_event st"
    and ready: "wait_for_client cfg \<longrightarrow> client_ready st" and ne: "chunk \<noteq> []"
  shows
    "((\<forall>w\<in>set (clients st). drains_or_drops (env w)) \<longrightarrow>
       (\<exists>st'. broadcast env chunk st = Returned st'
          \<and> clients st' = filter (\<lambda>w. env w = Drained) (clients st)
          \<and> closed st' = closed st \<union> {w \<in> set (clients st). env w \<noteq> Drained}
          \<and> (\<forall>w\<in>set (clients st). handed st' w = handed st w @ [chunk])
          \<and> (\<forall>w. w \<notin> set (clients st) \<longrightarrow> handed st' w = handed st w)
          \<and> total_bytes st' = total_bytes st
          \<and> (\<forall>chunks schedule.
                stdin_consumer cfg st (chunk # chunks) (([], env) # schedule) =
                  (if stop_on_disconnect cfg \<and> clients st' = [] \<and> clients st \<noteq> []
                   then Cancelled (st'\<lparr>total_bytes := total_bytes st + length chunk,
                                       shutdown_event := True\<rparr>)
                   else stdin_consumer cfg
                          (st'\<lparr>total_bytes := total_bytes st + length chunk\<rparr>) chunks schedule))
          \<and> (\<forall>chunk2 env2.
                chunk2 \<noteq> [] \<and> (\<forall>w\<in>set (clients st'). env2 w = Drained)
                \<and> (stop_on_disconnect cfg \<longrightarrow> clients st' \<noteq> [] \<or> clients st = []) \<longrightarrow>
                (\<exists>st''. stdin_consumer cfg st [chunk, chunk2] [([], env), ([], env2)] = Waiting st''
                    \<and> clients st'' = clients st' \<and> closed st'' = closed st'
                    \<and> (\<forall>w\<in>set (clients st'). handed st'' w = handed st w @ [chunk, chunk2])
                    \<and> (\<forall>w. w \<notin> set (clients st') \<longrightarrow> handed st'' w = handed st' w)
                    \<and> total_bytes st'' = total_bytes st + length chunk + length chunk2))
          \<and> (\<forall>chunks schedule.
                (\<forall>b\<in>set schedule. \<forall>w. drains_or_drops (snd b w)) \<longrightarrow>
                (\<forall>s. stdin_consumer cfg st (chunk # chunks) (([], env) # schedule) \<noteq> Suspended s)
              \<and> (\<forall>e s. stdin_consumer cfg st (chunk # chunks) (([], env) # schedule)
                          \<noteq> Failed e s))))
   \<and> (\<forall>pre w post.
         clients st = pre @ w # post \<and> (\<forall>v\<in>set pre. drains_or_drops (env v)) \<and> env w = Stalled \<longrightarrow>
         (\<exists>st'. broadcast env chunk st = Suspended st'
            \<and> clients st' = clients st \<and> closed st' = closed st
            \<and> (\<forall>v\<in>set (pre @ [w]). handed st' v = handed st v @ [chunk])
            \<and> (\<forall>v\<in>set post. handed st' v = handed st v)
            \<and> (\<forall>chunks schedule.
                  stdin_consumer cfg st (chunk # chunks) (([], env) # schedule) =
                    Suspended (st'\<lparr>total_bytes := total_bytes st + length chunk\<rparr>))))
   \<and> (\<forall>pre w post e.
         clients st = pre @ w # post \<and> (\<forall>v\<in>set pre. drains_or_drops (env v))
         \<and> env w = Raised e \<and> e \<noteq> ConnectionResetError \<and> e \<noteq> BrokenPipeError \<longrightarrow>
         (\<exists>st'. broadcast env chunk st = Failed e st'
            \<and> clients st' = clients st \<and> closed st' = closed st
            \<and> (\<forall>v\<in>set (pre @ [w]). handed st' v = handed st v @ [chunk])
            \<and> (\<forall>v\<in>set post. handed st' v = handed st v)
            \<and> (\<forall>chunks schedule.
                  stdin_consumer cfg st (chunk # chunks) (([], env) # schedule) =
                    Failed e (st'\<lparr>total_bytes := total_bytes st + length chunk\<rparr>))))"
proof (intro conjI allI impI)
  assume ok: "\<forall>w\<in>set (clients st). drains_or_drops (env w)"
  define st' where
    "st' = st\<lparr>handed := (\<lambda>v. if v \<in> set (clients st) then handed st v @ [chunk] else handed st v),
               clients := filter (\<lambda>w. env w = Drained) (clients st),
               closed := closed st \<union> {w \<in> set (clients st). env w \<noteq> Drained}\<rparr>"
  define st1 where
    "st1 = st\<lparr>total_bytes := total_bytes st + length chunk,
               handed := (\<lambda>v. if v \<in> set (clients st) then handed st v @ [chunk] else handed st v),
               clients := filter (\<lambda>w. env w = Drained) (clients st),
               closed := closed st \<union> {w \<in> set (clients st). env w \<noteq> Drained}\<rparr>"
  have e1: "st'\<lparr>total_bytes := total_bytes st + length chunk\<rparr> = st1"
    and e2: "st'\<lparr>total_bytes := total_bytes st + length chunk, shutdown_event := True\<rparr>
             = st1\<lparr>shutdown_event := True\<rparr>"
    by (simp_all add: st'_def st1_def)
  have r: "broadcast env chunk st = Returned st'"
    using broadcast_returns [OF ok d] by (simp add: st'_def)
  have f: "clients st' = filter (\<lambda>w. env w = Drained) (clients st)"
    "closed st' = closed st \<union> {w \<in> set (clients st). env w \<noteq> Drained}"
    "\<forall>w\<in>set (clients st). handed st' w = handed st w @ [chunk]"
    "\<forall>w. w \<notin> set (clients st) \<longrightarrow> handed st' w = handed st w"
    "total_bytes st' = total_bytes st"
    by (simp_all add: st'_def)
  have f1: "clients st1 = clients st'" "closed st1 = closed st'" "handed st1 = handed st'"
    "total_bytes st1 = total_bytes st + length chunk" "\<not> shutdown_event st1"
    "wait_for_client cfg \<longrightarrow> client_ready st1" "distinct (clients st1)"
    using run ready d by (simp_all add: st1_def st'_def)
  have step: "stdin_consumer cfg st (chunk # chunks) (([], env) # schedule) =
                (if stop_on_disconnect cfg \<and> clients st' = [] \<and> clients st \<noteq> []
                 then Cancelled (st1\<lparr>shutdown_event := True\<rparr>)
                 else stdin_consumer cfg st1 chunks schedule)" for chunks schedule
  proof -
    have "read_loop cfg st (chunk # chunks) (([], env) # schedule) =
            (if stop_on_disconnect cfg \<and> clients st1 = [] \<and> clients st \<noteq> []
             then Cancelled (st1\<lparr>shutdown_event := True\<rparr>)
             else read_loop cfg st1 chunks schedule)"
      using read_loop_step [OF d run ok ne, of cfg chunks schedule]
      unfolding Let_def st1_def [symmetric] .
    then show ?thesis
      by (simp only: consumer_is_loop [OF ready] consumer_is_loop [OF f1(6)] f1(1))
  qed
  have two: "\<exists>st''. stdin_consumer cfg st [chunk, chunk2] [([], env), ([], env2)] = Waiting st''
                    \<and> clients st'' = clients st' \<and> closed st'' = closed st'
                    \<and> (\<forall>w\<in>set (clients st'). handed st'' w = handed st w @ [chunk, chunk2])
                    \<and> (\<forall>w. w \<notin> set (clients st') \<longrightarrow> handed st'' w = handed st' w)
                    \<and> total_bytes st'' = total_bytes st + length chunk + length chunk2"
    if h: "chunk2 \<noteq> [] \<and> (\<forall>w\<in>set (clients st'). env2 w = Drained)
           \<and> (stop_on_disconnect cfg \<longrightarrow> clients st' \<noteq> [] \<or> clients st = [])" for chunk2 env2
  proof -
    from h have ne2: "chunk2 \<noteq> []" and dr: "\<forall>w\<in>set (clients st1). env2 w = Drained"
      and go: "\<not> (stop_on_disconnect cfg \<and> clients st' = [] \<and> clients st \<noteq> [])"
      by (auto simp add: f1)
    have ok2: "\<forall>w\<in>set (clients st1). drains_or_drops (env2 w)"
      using dr by (simp add: drains_or_drops_def)
    have keep: "filter (\<lambda>w. env2 w = Drained) (clients st1) = clients st1"
      using dr by (simp add: filter_id_conv)
    have none: "{w \<in> set (clients st1). env2 w \<noteq> Drained} = {}"
      using dr by auto
    define st'' where
      "st'' = st1\<lparr>total_bytes := total_bytes st1 + length chunk2,
                  handed := (\<lambda>v. if v \<in> set (clients st1) then handed st1 v @ [chunk2]
                                  else handed st1 v),
                  clients := filter (\<lambda>w. env2 w = Drained) (clients st1),
                  closed := closed st1 \<union> {w \<in> set (clients st1). env2 w \<noteq> Drained}\<rparr>"
    have g: "clients st'' = clients st1" "closed st'' = closed st1"
      "handed st'' = (\<lambda>v. if v \<in> set (clients st1) then handed st1 v @ [chunk2] else handed st1 v)"
      "total_bytes st'' = total_bytes st1 + length chunk2" "\<not> shutdown_event st''"
      using f1(5) by (simp_all add: st''_def keep none)
    have "read_loop cfg st1 [chunk2] [([], env2)] =
            (if stop_on_disconnect cfg \<and> clients st'' = [] \<and> clients st1 \<noteq> []
             then Cancelled (st''\<lparr>shutdown_event := True\<rparr>)
             else read_loop cfg st'' [] [])"
      using read_loop_step [OF f1(7) f1(5) ok2 ne2, of cfg "[]" "[]"]
      unfolding Let_def st''_def [symmetric] .
    then have second: "read_loop cfg st1 [chunk2] [([], env2)] = Waiting st''"
      using g by (simp add: read_loop.simps)
    have "stdin_consumer cfg st [chunk, chunk2] [([], env), ([], env2)] = Waiting st''"
      using step [of "[chunk2]" "[([], env2)]"] go second
      by (simp add: consumer_is_loop [OF f1(6)])
    moreover have "\<forall>w\<in>set (clients st'). handed st'' w = handed st w @ [chunk, chunk2]"
      by (simp add: g f1 st'_def)
    moreover have "\<forall>w. w \<notin> set (clients st') \<longrightarrow> handed st'' w = handed st' w"
      by (simp add: g f1)
    ultimately show ?thesis
      by (intro exI [of _ st'']) (simp add: g f1)
  qed
  have never: "(\<forall>s. stdin_consumer cfg st (chunk # chunks) (([], env) # schedule) \<noteq> Suspended s)
              \<and> (\<forall>e s. stdin_consumer cfg st (chunk # chunks) (([], env) # schedule)
                          \<noteq> Failed e s)"
    if h: "\<forall>b\<in>set schedule. \<forall>w. drains_or_drops (snd b w)" for chunks schedule
    using stdin_consumer_never_blocks [OF f1(7) h, of cfg chunks]
    by (simp add: step)
  show "\<exists>st'. broadcast env chunk st = Returned st'
          \<and> clients st' = filter (\<lambda>w. env w = Drained) (clients st)
          \<and> closed st' = closed st \<union> {w \<in> set (clients st). env w \<noteq> Drained}
          \<and> (\<forall>w\<in>set (clients st). handed st' w = handed st w @ [chunk])
          \<and> (\<forall>w. w \<notin> set (clients st) \<longrightarrow> handed st' w = handed st w)
          \<and> total_bytes st' = total_bytes st
          \<and> (\<forall>chunks schedule.
                stdin_consumer cfg st (chunk # chunks) (([], env) # schedule) =
                  (if stop_on_disconnect cfg \<and> clients st' = [] \<and> clients st \<noteq> []
                   then Cancelled (st'\<lparr>total_bytes := total_bytes st + length chunk,
                                       shutdown_event := True\<rparr>)
                   else stdin_consumer cfg
                          (st'\<lparr>total_bytes := total_bytes st + length chunk\<rparr>) chunks schedule))
          \<and> (\<forall>chunk2 env2.
                chunk2 \<noteq> [] \<and> (\<forall>w\<in>set (clients st'). env2 w = Drained)
                \<and> (stop_on_disconnect cfg \<longrightarrow> clients st' \<noteq> [] \<or> clients st = []) \<longrightarrow>
                (\<exists>st''. stdin_consumer cfg st [chunk, chunk2] [([], env), ([], env2)] = Waiting st''
                    \<and> clients st'' = clients st' \<and> closed st'' = closed st'
                    \<and> (\<forall>w\<in>set (clients st'). handed st'' w = handed st w @ [chunk, chunk2])
                    \<and> (\<forall>w. w \<notin> set (clients st') \<longrightarrow> handed st'' w = handed st' w)
                    \<and> total_bytes st'' = total_bytes st + length chunk + length chunk2))
          \<and> (\<forall>chunks schedule.
                (\<forall>b\<in>set schedule. \<forall>w. drains_or_drops (snd b w)) \<longrightarrow>
                (\<forall>s. stdin_consumer cfg st (chunk # chunks) (([], env) # schedule) \<noteq> Suspended s)
              \<and> (\<forall>e s. stdin_consumer cfg st (chunk # chunks) (([], env) # schedule)
                          \<noteq> Failed e s))"
  proof (rule exI [of _ st'], intro conjI)
    show "\<forall>chunks schedule.
                stdin_consumer cfg st (chunk # chunks) (([], env) # schedule) =
                  (if stop_on_disconnect cfg \<and> clients st' = [] \<and> clients st \<noteq> []
                   then Cancelled (st'\<lparr>total_bytes := total_bytes st + length chunk,
                                       shutdown_event := True\<rparr>)
                   else stdin_consumer cfg
                          (st'\<lparr>total_bytes := total_bytes st + length chunk\<rparr>) chunks schedule)"
      using step by (simp only: e1 e2) simp
    show "\<forall>chunk2 env2.
                chunk2 \<noteq> [] \<and> (\<forall>w\<in>set (clients st'). env2 w = Drained)
                \<and> (stop_on_disconnect cfg \<longrightarrow> clients st' \<noteq> [] \<or> clients st = []) \<longrightarrow>
                (\<exists>st''. stdin_consumer cfg st [chunk, chunk2] [([], env), ([], env2)] = Waiting st''
                    \<and> clients st'' = clients st' \<and> closed st'' = closed st'
                    \<and> (\<forall>w\<in>set (clients st'). handed st'' w = handed st w @ [chunk, chunk2])
                    \<and> (\<forall>w. w \<notin> set (clients st') \<longrightarrow> handed st'' w = handed st' w)
                    \<and> total_bytes st'' = total_bytes st + length chunk + length chunk2)"
      using two by blast
    show "\<forall>chunks schedule.
                (\<forall>b\<in>set schedule. \<forall>w. drains_or_drops (snd b w)) \<longrightarrow>
                (\<forall>s. stdin_consumer cfg st (chunk # chunks) (([], env) # schedule) \<noteq> Suspended s)
              \<and> (\<forall>e s. stdin_consumer cfg st (chunk # chunks) (([], env) # schedule)
                          \<noteq> Failed e s)"
      using never by blast
  qed (use r f in simp_all)
next
  fix pre w post
  assume h: "clients st = pre @ w # post \<and> (\<forall>v\<in>set pre. drains_or_drops (env v)) \<and> env w = Stalled"
  then have c: "clients st = pre @ w # post" and ok: "\<forall>v\<in>set pre. drains_or_drops (env v)"
    and w: "env w = Stalled"
    by simp_all
  define st0 where "st0 = st\<lparr>total_bytes := total_bytes st + length chunk\<rparr>"
  define st' where
    "st' = st\<lparr>handed := (\<lambda>v. if v \<in> set pre \<or> v = w then handed st v @ [chunk] else handed st v)\<rparr>"
  have c0: "clients st0 = pre @ w # post" and d0: "distinct (clients st0)"
    using c d by (simp_all add: st0_def)
  have post: "\<forall>v\<in>set post. v \<notin> set pre \<and> v \<noteq> w"
    using c d by auto
  have b: "broadcast env chunk st = Suspended st'"
    using broadcast_stalls [OF c d ok w] by (simp add: st'_def)
  have b0: "broadcast env chunk st0 = Suspended (st'\<lparr>total_bytes := total_bytes st + length chunk\<rparr>)"
    using broadcast_stalls [OF c0 d0 ok w, of chunk] unfolding st'_def st0_def
    by (simp cong: if_cong)
  have loop: "stdin_consumer cfg st (chunk # chunks) (([], env) # schedule) =
                Suspended (st'\<lparr>total_bytes := total_bytes st + length chunk\<rparr>)" for chunks schedule
    using read_loop_suspended [OF run ne b0 [unfolded st0_def]]
    by (simp add: consumer_is_loop [OF ready])
  show "\<exists>st'. broadcast env chunk st = Suspended st'
            \<and> clients st' = clients st \<and> closed st' = closed st
            \<and> (\<forall>v\<in>set (pre @ [w]). handed st' v = handed st v @ [chunk])
            \<and> (\<forall>v\<in>set post. handed st' v = handed st v)
            \<and> (\<forall>chunks schedule.
                  stdin_consumer cfg st (chunk # chunks) (([], env) # schedule) =
                    Suspended (st'\<lparr>total_bytes := total_bytes st + length chunk\<rparr>))"
    using b loop post by (intro exI [of _ st']) (auto simp add: st'_def)
next
  fix pre w post e
  assume h: "clients st = pre @ w # post \<and> (\<forall>v\<in>set pre. drains_or_drops (env v))
         \<and> env w = Raised e \<and> e \<noteq> ConnectionResetError \<and> e \<noteq> BrokenPipeError"
  then have c: "clients st = pre @ w # post" and ok: "\<forall>v\<in>set pre. drains_or_drops (env v)"
    and w: "env w = Raised e" and e: "e \<noteq> ConnectionResetError" "e \<noteq> BrokenPipeError"
    by simp_all
  define st0 where "st0 = st\<lparr>total_bytes := total_bytes st + length chunk\<rparr>"
  define st' where
    "st' = st\<lparr>handed := (\<lambda>v. if v \<in> set pre \<or> v = w then handed st v @ [chunk] else handed st v)\<rparr>"
  have c0: "clients st0 = pre @ w # post" and d0: "distinct (clients st0)"
    using c d by (simp_all add: st0_def)
  have post: "\<forall>v\<in>set post. v \<notin> set pre \<and> v \<noteq> w"
    using c d by auto
  have b: "broadcast env chunk st = Failed e st'"
    using broadcast_fails [OF c d ok w e] by (simp add: st'_def)
  have b0: "broadcast env chunk st0 = Failed e (st'\<lparr>total_bytes := total_bytes st + length chunk\<rparr>)"
    using broadcast_fails [OF c0 d0 ok w e, of chunk] unfolding st'_def st0_def
    by (simp cong: if_cong)
  have loop: "stdin_consumer cfg st (chunk # chunks) (([], env) # schedule) =
                Failed e (st'\<lparr>total_bytes := total_bytes st + length chunk\<rparr>)" for chunks schedule
    using read_loop_failed [OF run ne b0 [unfolded st0_def]]
    by (simp add: consumer_is_loop [OF ready])
  show "\<exists>st'. broadcast env chunk st = Failed e st'
            \<and> clients st' = clients st \<and> closed st' = closed st
            \<and> (\<forall>v\<in>set (pre @ [w]). handed st' v = handed st v @ [chunk])
            \<and> (\<forall>v\<in>set post. handed st' v = handed st v)
            \<and> (\<forall>chunks schedule.
                  stdin_consumer cfg st (chunk # chunks) (([], env) # schedule) =
                    Failed e (st'\<lparr>total_bytes := total_bytes st + length chunk\<rparr>))"
    using b loop post by (intro exI [of _ st']) (auto simp add: st'_def)
qed

theorem C2_failed_clients_dropped_witness:
  "\<exists>st' st''.
       broadcast second_resets first_chunk three_clients = Returned st'
     \<and> clients st' = [1, 3] \<and> closed st' = {2}
     \<and> handed st' 1 = [first_chunk] \<and> handed st' 2 = [first_chunk]
     \<and> handed st' 3 = [first_chunk]
     \<and> stdin_consumer keep_serving three_clients [first_chunk, next_chunk]
          [([], second_resets), ([], all_drain)] = Waiting st''
     \<and> clients st'' = [1, 3] \<and> closed st'' = {2}
     \<and> handed st'' 1 = [first_chunk, next_chunk] \<and> handed st'' 2 = [first_chunk]
     \<and> handed st'' 3 = [first_chunk, next_chunk]
     \<and> total_bytes st'' = 2"
proof -
  have d: "distinct (clients three_clients)" and run: "\<not> shutdown_event three_clients"
    and ready: "wait_for_client keep_serving \<longrightarrow> client_ready three_clients"
    and ne: "first_chunk \<noteq> []"
    by (simp_all add: three_clients_def keep_serving_def first_chunk_def)
  have ok: "\<forall>w\<in>set (clients three_clients). drains_or_drops (second_resets w)"
    by (simp add: three_clients_def second_resets_def drains_or_drops_def)
  note t = C2_failed_clients_dropped [OF d run ready ne, of second_resets]
  from t [THEN conjunct1, THEN mp, OF ok] obtain st' where
    b: "broadcast second_resets first_chunk three_clients = Returned st'"
    and c: "clients st' = filter (\<lambda>w. second_resets w = Drained) (clients three_clients)"
    and x: "closed st' = closed three_clients \<union> {w \<in> set (clients three_clients). second_resets w \<noteq> Drained}"
    and h: "\<forall>w\<in>set (clients three_clients). handed st' w = handed three_clients w @ [first_chunk]"
    and two: "\<forall>chunk2 env2.
                chunk2 \<noteq> [] \<and> (\<forall>w\<in>set (clients st'). env2 w = Drained)
                \<and> (stop_on_disconnect keep_serving \<longrightarrow> clients st' \<noteq> [] \<or> clients three_clients = []) \<longrightarrow>
                (\<exists>st''. stdin_consumer keep_serving three_clients [first_chunk, chunk2]
                           [([], second_resets), ([], env2)] = Waiting st''
                    \<and> clients st'' = clients st' \<and> closed st'' = closed st'
                    \<and> (\<forall>w\<in>set (clients st'). handed st'' w = handed three_clients w @ [first_chunk, chunk2])
                    \<and> (\<forall>w. w \<notin> set (clients st') \<longrightarrow> handed st'' w = handed st' w)
                    \<and> total_bytes st'' = total_bytes three_clients + length first_chunk + length chunk2)"
    by (elim exE conjE) (rule that, assumption+)
  have c': "clients st' = [1, 3]" and x': "closed st' = {2}"
    and h': "handed st' 1 = [first_chunk]" "handed st' 2 = [first_chunk]"
      "handed st' 3 = [first_chunk]"
    using h by (auto simp add: c x three_clients_def second_resets_def)
  have pre: "next_chunk \<noteq> [] \<and> (\<forall>w\<in>set (clients st'). all_drain w = Drained)
       \<and> (stop_on_disconnect keep_serving \<longrightarrow> clients st' \<noteq> [] \<or> clients three_clients = [])"
    by (simp add: next_chunk_def all_drain_def keep_serving_def)
  from two [THEN spec, THEN spec, THEN mp, OF pre] obtain st'' where
    s: "stdin_consumer keep_serving three_clients [first_chunk, next_chunk]
          [([], second_resets), ([], all_drain)] = Waiting st''"
    and c2: "clients st'' = clients st'" "closed st'' = closed st'"
    and h2: "\<forall>w\<in>set (clients st'). handed st'' w = handed three_clients w @ [first_chunk, next_chunk]"
    and h3: "\<forall>w. w \<notin> set (clients st') \<longrightarrow> handed st'' w = handed st' w"
    and n: "total_bytes st'' = total_bytes three_clients + length first_chunk + length next_chunk"
    by (elim exE conjE) (rule that, assumption+)
  have h2': "handed st'' 1 = [first_chunk, next_chunk]" "handed st'' 3 = [first_chunk, next_chunk]"
    using h2 by (simp_all add: c' three_clients_def)
  have h3': "handed st'' 2 = [first_chunk]"
    using h3 [rule_format, of 2] by (simp add: c' h')
  have n': "total_bytes st'' = 2"
    using n by (simp add: three_clients_def first_chunk_def next_chunk_def)
  show ?thesis
    using b c' x' h' s c2 h2' h3' n'
    by (intro exI [of _ st'] exI [of _ st'']) simp
qed

section \<open>Claims about the HLS repackager\<close>



























section \<open>Claims about the placeholder/live switch\<close>

lemma emit_simps [simp]:
  "trace (emit es st) = trace st @ es"
  "live_mode (emit es st) = live_mode st"
  "last_placeholder_activity (emit es st) = last_placeholder_activity st"
  by (simp_all add: emit_def)

lemma terminate_cleanup: "list_all cleanup_event (terminate p t)"
  by (simp add: terminate_def cleanup_event_def Let_def)

lemma cleanup_relay: "list_all cleanup_event es \<Longrightarrow> list_all relay_event es"
  by (induction es) (auto simp add: cleanup_event_def relay_event_def split: event.splits)

lemma terminate_steps:
  "terminate p t =
     (if still_running t then [Killpg p SIGTERM] else [])
     @ (if still_running t \<and> group_gone t then []
        else WaitExit p # (if wait_expires t then [Killpg p SIGKILL] else []))"
  by (simp add: terminate_def Let_def)

lemma switch_over_trace:
  assumes "switch_over st t chunk = (st', r)"
  shows "trace st' = trace st
           @ [Log ''[fifo-switch] live data detected, switching over'', SetLiveMode Blocking]
           @ terminate Placeholder (handover_term t) @ [ClosePlaceholderStdout, SinkWrite chunk]"
    and "live_mode st' = Blocking"
    and "r = (if write_fails t then SinkGone else HandedOver)"
  using assms by (auto simp add: switch_over_def Let_def split: if_splits)

lemma live_step:
  assumes mode: "live_mode st = NonBlocking" and alive: "\<not> live_exited t"
    and data: "live_data t = Some chunk" and ne: "chunk \<noteq> []"
    and run: "before_handover limit grace st (t # ts) = (st', r)"
  shows "case grace_sleep limit grace of
           Inr slept \<Rightarrow>
             trace st' = trace st @ handover_sequence slept chunk (handover_term t)
             \<and> live_mode st' = Blocking
             \<and> r = (if write_fails t then SinkGone else HandedOver)
         | Inl e \<Rightarrow>
             trace st' = trace st @ [LiveRead NonBlocking (Some chunk)]
             \<and> live_mode st' = NonBlocking \<and> r = Uncaught e"
proof (cases "float_truth grace")
  case False
  with run alive data ne
  have "switch_over (emit [LiveRead (live_mode st) (live_data t)] st) t chunk = (st', r)"
    by (simp add: Let_def)
  from switch_over_trace [OF this] False mode data show ?thesis
    by (simp add: grace_sleep_def handover_sequence_def)
next
  case True
  show ?thesis
  proof (cases "time_sleep limit grace")
    case (Inl e)
    with run alive data ne True mode show ?thesis
      by (auto simp add: Let_def grace_sleep_def)
  next
    case (Inr secs)
    with run alive data ne True
    have "switch_over (emit [Sleep secs] (emit [LiveRead (live_mode st) (live_data t)] st)) t chunk
            = (st', r)"
      by (simp add: Let_def)
    from switch_over_trace [OF this] True Inr mode data show ?thesis
      by (simp add: grace_sleep_def handover_sequence_def)
  qed
qed

lemma quiet_step:
  assumes mode: "live_mode st = NonBlocking" and q: "quiet_tick t"
  shows "\<exists>round st1. round_for t round \<and> trace st1 = trace st @ round
           \<and> live_mode st1 = NonBlocking
           \<and> (\<forall>ts. before_handover limit grace st (t # ts) = before_handover limit grace st1 ts)"
proof -
  define nb where "nb = LiveRead NonBlocking (live_data t)"
  from q have alive: "\<not> live_exited t" and er: "empty_read (live_data t)"
    by (simp_all add: quiet_tick_def)
  from er have chunk: "(case live_data t of None \<Rightarrow> [] | Some data \<Rightarrow> data) = []"
    by (simp add: empty_read_def split: option.splits)
  show ?thesis
  proof (cases "placeholder_data t = []")
    case data: False
    with q have wf: "\<not> write_fails t" by (simp add: quiet_tick_def)
    define round where
      "round = [nb, PlaceholderRead (placeholder_data t), SinkWrite (placeholder_data t)]"
    define st1 where
      "st1 = (emit [SinkWrite (placeholder_data t)]
                (emit [PlaceholderRead (placeholder_data t)]
                   (emit [LiveRead (live_mode st) (live_data t)] st)))
             \<lparr>last_placeholder_activity := clock t\<rparr>"
    have "round_for t round"
      using er data by (simp add: round_for_def poll_round_def round_def nb_def)
    moreover have "trace st1 = trace st @ round" "live_mode st1 = NonBlocking"
      using mode by (simp_all add: st1_def round_def nb_def)
    moreover have "\<forall>ts. before_handover limit grace st (t # ts) = before_handover limit grace st1 ts"
      using alive chunk data wf by (simp add: Let_def st1_def)
    ultimately show ?thesis by blast
  next
    case nodata: True
    with q have running: "\<not> placeholder_exited t" by (simp add: quiet_tick_def)
    show ?thesis
    proof (cases "clock t - last_placeholder_activity st > 5")
      case True
      define round where
        "round = [nb, PlaceholderRead [], Log ''[fifo-switch] waiting for placeholder data...'']"
      define st1 where
        "st1 = (emit [Log ''[fifo-switch] waiting for placeholder data...'']
                  (emit [PlaceholderRead (placeholder_data t)]
                     (emit [LiveRead (live_mode st) (live_data t)] st)))
               \<lparr>last_placeholder_activity := clock_after_log t\<rparr>"
      have "round_for t round"
        using er nodata by (simp add: round_for_def poll_round_def round_def nb_def)
      moreover have "trace st1 = trace st @ round" "live_mode st1 = NonBlocking"
        using mode nodata by (simp_all add: st1_def round_def nb_def)
      moreover have "\<forall>ts. before_handover limit grace st (t # ts) = before_handover limit grace st1 ts"
        using alive chunk nodata running True by (simp add: Let_def st1_def)
      ultimately show ?thesis by blast
    next
      case False
      define round where "round = [nb, PlaceholderRead []]"
      define st1 where
        "st1 = emit [PlaceholderRead (placeholder_data t)]
                 (emit [LiveRead (live_mode st) (live_data t)] st)"
      have "round_for t round"
        using er nodata by (simp add: round_for_def poll_round_def round_def nb_def)
      moreover have "trace st1 = trace st @ round" "live_mode st1 = NonBlocking"
        using mode nodata by (simp_all add: st1_def round_def nb_def)
      moreover have "\<forall>ts. before_handover limit grace st (t # ts) = before_handover limit grace st1 ts"
        using alive chunk nodata running False by (simp add: Let_def st1_def)
      ultimately show ?thesis by blast
    qed
  qed
qed

lemma stop_step:
  assumes mode: "live_mode st = NonBlocking" and alive: "\<not> live_exited t"
    and er: "empty_read (live_data t)" and nq: "\<not> quiet_tick t"
    and run: "before_handover limit grace st (t # ts) = (st', r)"
  shows "\<exists>round. poll_round round \<and> trace st' = trace st @ round \<and> r \<noteq> HandedOver"
proof -
  define nb where "nb = LiveRead NonBlocking (live_data t)"
  from er have chunk: "(case live_data t of None \<Rightarrow> [] | Some data \<Rightarrow> data) = []"
    by (simp add: empty_read_def split: option.splits)
  show ?thesis
  proof (cases "placeholder_data t = []")
    case data: False
    with nq alive er have wf: "write_fails t" by (simp add: quiet_tick_def)
    define round where
      "round = [nb, PlaceholderRead (placeholder_data t), SinkWrite (placeholder_data t)]"
    have "poll_round round"
      using er data by (simp add: poll_round_def round_def nb_def)
    moreover from run alive chunk data wf mode
    have "trace st' = trace st @ round" "r = SinkGone"
      by (auto simp add: Let_def round_def nb_def)
    ultimately show ?thesis by auto
  next
    case nodata: True
    with nq alive er have gone: "placeholder_exited t" by (simp add: quiet_tick_def)
    define round where "round = [nb, PlaceholderRead []]"
    have "poll_round round"
      using er by (simp add: poll_round_def round_def nb_def)
    moreover from run alive chunk nodata gone mode
    have "trace st' = trace st @ round"
      "r = Uncaught (RuntimeError ''placeholder process exited unexpectedly'')"
      by (auto simp add: Let_def round_def nb_def)
    ultimately show ?thesis by auto
  qed
qed

lemma round_for_poll: "round_for t es \<Longrightarrow> poll_round es"
  by (simp add: round_for_def)

lemma before_handover_run:
  assumes "live_mode st = NonBlocking" and "list_all quiet_tick pre"
    and "\<not> live_exited t" and "live_data t = Some chunk" and "chunk \<noteq> []"
    and "before_handover limit grace st (pre @ t # post) = (st', r)"
  shows "\<exists>rounds. list_all2 round_for pre rounds \<and>
           (case grace_sleep limit grace of
              Inr slept \<Rightarrow>
                trace st' = trace st @ concat rounds
                            @ handover_sequence slept chunk (handover_term t)
                \<and> live_mode st' = Blocking
                \<and> r = (if write_fails t then SinkGone else HandedOver)
            | Inl e \<Rightarrow>
                trace st' = trace st @ concat rounds @ [LiveRead NonBlocking (Some chunk)]
                \<and> live_mode st' = NonBlocking \<and> r = Uncaught e)"
  using assms(1,2,6)
proof (induction pre arbitrary: st)
  case Nil
  then have "before_handover limit grace st (t # post) = (st', r)" by simp
  from live_step [OF Nil.prems(1) assms(3,4,5) this] show ?case
    by (intro exI [of _ "[]"]) (simp split: sum.splits)
next
  case (Cons p pre)
  then have q: "quiet_tick p" and qs: "list_all quiet_tick pre" by simp_all
  from quiet_step [OF Cons.prems(1) q, of limit grace] obtain round st1 where
    rf: "round_for p round" and t1: "trace st1 = trace st @ round"
    and m1: "live_mode st1 = NonBlocking"
    and go: "\<forall>ts. before_handover limit grace st (p # ts) = before_handover limit grace st1 ts"
    by blast
  from Cons.prems(3) go have "before_handover limit grace st1 (pre @ t # post) = (st', r)"
    by simp
  from Cons.IH [OF m1 qs this] obtain rounds where
    rs: "list_all2 round_for pre rounds"
    and c: "case grace_sleep limit grace of
              Inr slept \<Rightarrow>
                trace st' = trace st1 @ concat rounds
                            @ handover_sequence slept chunk (handover_term t)
                \<and> live_mode st' = Blocking
                \<and> r = (if write_fails t then SinkGone else HandedOver)
            | Inl e \<Rightarrow>
                trace st' = trace st1 @ concat rounds @ [LiveRead NonBlocking (Some chunk)]
                \<and> live_mode st' = NonBlocking \<and> r = Uncaught e"
    by blast
  from rf rs c show ?case
    by (intro exI [of _ "round # rounds"]) (simp add: t1 split: sum.splits)
qed

lemma before_handover_shape:
  assumes "live_mode st = NonBlocking"
    and "before_handover limit grace st ts = (st', r)"
  shows "\<exists>rounds tail.
           list_all poll_round rounds
         \<and> trace st' = trace st @ concat rounds @ tail
         \<and> ((tail = [] \<and> r \<noteq> HandedOver)
            \<or> (\<exists>chunk t slept. chunk \<noteq> [] \<and> grace_sleep limit grace = Inr slept
                  \<and> tail = handover_sequence slept chunk t
                  \<and> live_mode st' = Blocking \<and> (r = HandedOver \<or> r = SinkGone))
            \<or> (\<exists>chunk e. chunk \<noteq> [] \<and> grace_sleep limit grace = Inl e
                  \<and> tail = [LiveRead NonBlocking (Some chunk)] \<and> r = Uncaught e))"
  using assms
proof (induction ts arbitrary: st)
  case Nil
  then show ?case by (intro exI [of _ "[]"]) simp
next
  case (Cons t ts)
  note mode = Cons.prems(1) and run = Cons.prems(2)
  show ?case
  proof (cases "live_exited t")
    case True
    with run show ?thesis by (intro exI [of _ "[]"]) auto
  next
    case alive: False
    show ?thesis
    proof (cases "empty_read (live_data t)")
      case False
      then obtain chunk where ld: "live_data t = Some chunk" and ne: "chunk \<noteq> []"
        by (auto simp add: empty_read_def split: option.splits)
      note step = live_step [OF mode alive ld ne run]
      show ?thesis
      proof (cases "grace_sleep limit grace")
        case (Inl e)
        with step ne show ?thesis
          by (intro exI [of _ "[]"] exI [of _ "[LiveRead NonBlocking (Some chunk)]"]) simp
      next
        case (Inr slept)
        with step ne show ?thesis
          by (intro exI [of _ "[]"]
              exI [of _ "handover_sequence slept chunk (handover_term t)"]) auto
      qed
    next
      case er: True
      show ?thesis
      proof (cases "quiet_tick t")
        case False
        from stop_step [OF mode alive er False run] obtain round where
          "poll_round round" "trace st' = trace st @ round" "r \<noteq> HandedOver"
          by blast
        then show ?thesis
          by (intro exI [of _ "[round]"] exI [of _ "[]"]) simp
      next
        case True
        from quiet_step [OF mode True, of limit grace] obtain round st1 where
          rf: "round_for t round" and t1: "trace st1 = trace st @ round"
          and m1: "live_mode st1 = NonBlocking"
          and go: "\<forall>ts. before_handover limit grace st (t # ts) = before_handover limit grace st1 ts"
          by blast
        from run go have "before_handover limit grace st1 ts = (st', r)" by simp
        from Cons.IH [OF m1 this] obtain rounds tail where
          "list_all poll_round rounds" "trace st' = trace st1 @ concat rounds @ tail"
          "(tail = [] \<and> r \<noteq> HandedOver)
            \<or> (\<exists>chunk t slept. chunk \<noteq> [] \<and> grace_sleep limit grace = Inr slept
                  \<and> tail = handover_sequence slept chunk t
                  \<and> live_mode st' = Blocking \<and> (r = HandedOver \<or> r = SinkGone))
            \<or> (\<exists>chunk e. chunk \<noteq> [] \<and> grace_sleep limit grace = Inl e
                  \<and> tail = [LiveRead NonBlocking (Some chunk)] \<and> r = Uncaught e)"
          by blast
        with round_for_poll [OF rf] t1 show ?thesis
          by (intro exI [of _ "round # rounds"] exI [of _ tail]) simp
      qed
    qed
  qed
qed

lemma relay_live_shape:
  assumes "live_mode st = Blocking" and "relay_live st ts = (st', r)"
  shows "\<exists>post. trace st' = trace st @ post \<and> list_all relay_event post \<and> r \<noteq> HandedOver
               \<and> live_mode st' = Blocking"
  using assms
proof (induction ts arbitrary: st)
  case Nil
  then show ?case by auto
next
  case (Cons t ts)
  define rd where "rd = LiveRead Blocking (Some (relay_data t))"
  have rd: "relay_event rd" "relay_event (SinkWrite (relay_data t))"
    by (simp_all add: rd_def relay_event_def)
  note mode = Cons.prems(1) and run = Cons.prems(2)
  show ?case
  proof (cases "relay_data t = []")
    case data: False
    show ?thesis
    proof (cases "relay_write_fails t")
      case True
      with run data mode have "trace st' = trace st @ [rd, SinkWrite (relay_data t)]"
        "r = SinkGone" "live_mode st' = Blocking"
        by (auto simp add: Let_def rd_def)
      with rd show ?thesis by auto
    next
      case False
      define st2 where
        "st2 = emit [SinkWrite (relay_data t)] (emit [LiveRead (live_mode st) (Some (relay_data t))] st)"
      have m2: "live_mode st2 = Blocking"
        and t2: "trace st2 = trace st @ [rd, SinkWrite (relay_data t)]"
        using mode by (simp_all add: st2_def rd_def)
      from run data False have "relay_live st2 ts = (st', r)"
        by (simp add: Let_def st2_def)
      from Cons.IH [OF m2 this] obtain post where
        "trace st' = trace st2 @ post" "list_all relay_event post" "r \<noteq> HandedOver"
        "live_mode st' = Blocking"
        by blast
      with rd t2 show ?thesis
        by (intro exI [of _ "[rd, SinkWrite (relay_data t)] @ post"]) simp
    qed
  next
    case nodata: True
    show ?thesis
    proof (cases "relay_live_exited t")
      case True
      with run nodata mode have "trace st' = trace st @ [rd]" "r = Finished"
        "live_mode st' = Blocking"
        by (auto simp add: Let_def rd_def)
      with rd show ?thesis by auto
    next
      case False
      define st2 where "st2 = emit [LiveRead (live_mode st) (Some (relay_data t))] st"
      have m2: "live_mode st2 = Blocking" and t2: "trace st2 = trace st @ [rd]"
        using mode by (simp_all add: st2_def rd_def)
      from run nodata False have "relay_live st2 ts = (st', r)"
        by (simp add: Let_def st2_def)
      from Cons.IH [OF m2 this] obtain post where
        "trace st' = trace st2 @ post" "list_all relay_event post" "r \<noteq> HandedOver"
        "live_mode st' = Blocking"
        by blast
      with rd t2 show ?thesis
        by (intro exI [of _ "[rd] @ post"]) simp
    qed
  qed
qed

lemma finally_block_trace:
  "\<exists>fin. trace (finally_block env st) = trace st @ fin \<and> list_all cleanup_event fin"
  by (auto simp add: finally_block_def terminate_cleanup cleanup_event_def)

text \<open>What \<open>main\<close> adds to the trace of its first loop.\<close>

lemma main_switch_rest:
  assumes bh: "before_handover (sleep_max env) grace
                 \<lparr>live_mode = NonBlocking, last_placeholder_activity = start_clock env,
                  trace = [SetLiveMode NonBlocking, OpenFifo]\<rparr> (ticks env) = (st1, r1)"
    and mode: "r1 = HandedOver \<Longrightarrow> live_mode st1 = Blocking"
    and run: "main_switch grace env = (tr, out)"
  shows "\<exists>rest. tr = trace st1 @ rest \<and> list_all relay_event rest
           \<and> (r1 \<noteq> HandedOver \<longrightarrow> list_all cleanup_event rest)
           \<and> (\<forall>e. r1 = Uncaught e \<longrightarrow> out = Uncaught e)"
proof -
  obtain st2 r2 where
    rl: "(if r1 = HandedOver then relay_live st1 (live_ticks env) else (st1, r1)) = (st2, r2)"
    by (cases "if r1 = HandedOver then relay_live st1 (live_ticks env) else (st1, r1)")
  have post: "\<exists>post. trace st2 = trace st1 @ post \<and> list_all relay_event post
                \<and> (r1 \<noteq> HandedOver \<longrightarrow> post = [] \<and> r2 = r1) \<and> r2 \<noteq> HandedOver"
  proof (cases "r1 = HandedOver")
    case True
    from rl True have "relay_live st1 (live_ticks env) = (st2, r2)" by simp
    from relay_live_shape [OF mode [OF True] this] True show ?thesis by blast
  next
    case False
    with rl show ?thesis by auto
  qed
  then obtain post where t2: "trace st2 = trace st1 @ post" and post: "list_all relay_event post"
    and nopost: "r1 \<noteq> HandedOver \<Longrightarrow> post = [] \<and> r2 = r1" and r2: "r2 \<noteq> HandedOver"
    by blast
  have tr: "\<exists>fin. tr = trace st2 @ fin \<and> list_all cleanup_event fin
              \<and> (\<forall>e. r2 = Uncaught e \<longrightarrow> out = Uncaught e)"
  proof (cases r2)
    case Unfinished
    with run bh rl show ?thesis
      by (auto simp add: main_switch_def Let_def)
  next
    case SinkGone
    from finally_block_trace [of env "emit [Log ''[fifo-switch] FIFO reader closed, stopping''] st2"]
    obtain fin where
      "trace (finally_block env (emit [Log ''[fifo-switch] FIFO reader closed, stopping''] st2))
         = (trace st2 @ [Log ''[fifo-switch] FIFO reader closed, stopping'']) @ fin"
      "list_all cleanup_event fin"
      by auto
    with run bh rl SinkGone show ?thesis
      by (intro exI [of _ "Log ''[fifo-switch] FIFO reader closed, stopping'' # fin"])
         (auto simp add: main_switch_def Let_def cleanup_event_def)
  next
    case Finished
    from finally_block_trace [of env st2] run bh rl Finished show ?thesis
      by (auto simp add: main_switch_def Let_def)
  next
    case (Uncaught e)
    from finally_block_trace [of env st2] run bh rl Uncaught show ?thesis
      by (auto simp add: main_switch_def Let_def)
  next
    case HandedOver
    with r2 show ?thesis by simp
  qed
  then obtain fin where fin: "tr = trace st2 @ fin" "list_all cleanup_event fin"
    "\<forall>e. r2 = Uncaught e \<longrightarrow> out = Uncaught e"
    by blast
  have "tr = trace st1 @ (post @ fin)" using fin(1) t2 by simp
  moreover have "list_all relay_event (post @ fin)"
    using post fin(2) by (simp add: cleanup_relay)
  moreover have "r1 \<noteq> HandedOver \<longrightarrow> list_all cleanup_event (post @ fin)"
    using nopost fin(2) by simp
  moreover have "\<forall>e. r1 = Uncaught e \<longrightarrow> out = Uncaught e"
    using nopost fin(3) by auto
  ultimately show ?thesis by blast
qed

text \<open>
  C6, as the code behaves. Every run of the switch has one of three traces. No live data
  was read: after making the live pipe non-blocking and opening the FIFO the switch goes
  through rounds, each a non-blocking live read that yields nothing followed by a
  placeholder read whose chunk is written to the FIFO, and then only cleans up. Or the
  rounds end with a non-blocking live read that returns a non-empty chunk and the grace
  is zero or a length \<open>time.sleep\<close> accepts: what follows is, in this order, the
  grace sleep if the grace is not zero, the log line, the switch of the live pipe back to
  blocking mode, the termination of the placeholder (\<open>SIGTERM\<close> if it still runs, a
  bounded wait unless its group is gone, \<open>SIGKILL\<close> if the wait expires), the close
  of the placeholder's pipe, and the write of that chunk to the FIFO; every later live
  read is in blocking mode, and no placeholder read or change of mode follows. Or the
  rounds end with such a read and \<open>time.sleep\<close> refuses the grace: only the clean-up
  follows, and the run ends with that exception. And whenever the environment keeps the
  first loop going for some rounds and then has a non-empty live chunk to read, the run
  is the second or the third of these, with one round for each of those ticks, that
  chunk, and the termination as the placeholder answers it at that tick.
\<close>

theorem C6_handover_order:
  assumes run: "main_switch grace env = (tr, out)"
  shows
    "(\<exists>rounds rest.
        list_all poll_round rounds
      \<and> ((tr = [SetLiveMode NonBlocking, OpenFifo] @ concat rounds @ rest
           \<and> list_all cleanup_event rest)
         \<or> (\<exists>chunk (t::term_env) slept.
               chunk \<noteq> [] \<and> grace_sleep (sleep_max env) grace = Inr slept
             \<and> tr = [SetLiveMode NonBlocking, OpenFifo] @ concat rounds
                    @ [LiveRead NonBlocking (Some chunk)]
                    @ slept
                    @ [Log ''[fifo-switch] live data detected, switching over'',
                       SetLiveMode Blocking]
                    @ (if still_running t then [Killpg Placeholder SIGTERM] else [])
                    @ (if still_running t \<and> group_gone t then []
                       else WaitExit Placeholder
                            # (if wait_expires t then [Killpg Placeholder SIGKILL] else []))
                    @ [ClosePlaceholderStdout, SinkWrite chunk]
                    @ rest
             \<and> list_all relay_event rest)
         \<or> (\<exists>chunk e.
               chunk \<noteq> [] \<and> grace_sleep (sleep_max env) grace = Inl e
             \<and> tr = [SetLiveMode NonBlocking, OpenFifo] @ concat rounds
                    @ [LiveRead NonBlocking (Some chunk)] @ rest
             \<and> list_all cleanup_event rest \<and> out = Uncaught e)))
   \<and> (\<forall>pre t post chunk.
         ticks env = pre @ t # post \<and> list_all quiet_tick pre
         \<and> \<not> live_exited t \<and> live_data t = Some chunk \<and> chunk \<noteq> [] \<longrightarrow>
         (\<exists>rounds rest.
            list_all2 round_for pre rounds
          \<and> (case grace_sleep (sleep_max env) grace of
                Inr slept \<Rightarrow>
                  tr = [SetLiveMode NonBlocking, OpenFifo] @ concat rounds
                       @ [LiveRead NonBlocking (Some chunk)]
                       @ slept
                       @ [Log ''[fifo-switch] live data detected, switching over'',
                          SetLiveMode Blocking]
                       @ (if still_running (handover_term t)
                          then [Killpg Placeholder SIGTERM] else [])
                       @ (if still_running (handover_term t) \<and> group_gone (handover_term t)
                          then []
                          else WaitExit Placeholder
                               # (if wait_expires (handover_term t)
                                  then [Killpg Placeholder SIGKILL] else []))
                       @ [ClosePlaceholderStdout, SinkWrite chunk]
                       @ rest
                  \<and> list_all relay_event rest
              | Inl e \<Rightarrow>
                  tr = [SetLiveMode NonBlocking, OpenFifo] @ concat rounds
                       @ [LiveRead NonBlocking (Some chunk)] @ rest
                  \<and> list_all cleanup_event rest \<and> out = Uncaught e)))"
proof (rule conjI)
  let ?st0 = "\<lparr>live_mode = NonBlocking, last_placeholder_activity = start_clock env,
               trace = [SetLiveMode NonBlocking, OpenFifo]\<rparr>"
  obtain st1 r1 where bh: "before_handover (sleep_max env) grace ?st0 (ticks env) = (st1, r1)"
    by (cases "before_handover (sleep_max env) grace ?st0 (ticks env)")
  have m0: "live_mode ?st0 = NonBlocking" by simp
  from before_handover_shape [OF m0 bh] obtain rounds tail where
    rounds: "list_all poll_round rounds"
    and t1': "trace st1 = trace ?st0 @ concat rounds @ tail"
    and tail: "(tail = [] \<and> r1 \<noteq> HandedOver)
            \<or> (\<exists>chunk t slept. chunk \<noteq> [] \<and> grace_sleep (sleep_max env) grace = Inr slept
                  \<and> tail = handover_sequence slept chunk t
                  \<and> live_mode st1 = Blocking \<and> (r1 = HandedOver \<or> r1 = SinkGone))
            \<or> (\<exists>chunk e. chunk \<noteq> [] \<and> grace_sleep (sleep_max env) grace = Inl e
                  \<and> tail = [LiveRead NonBlocking (Some chunk)] \<and> r1 = Uncaught e)"
    by blast
  have t1: "trace st1 = [SetLiveMode NonBlocking, OpenFifo] @ concat rounds @ tail"
    using t1' by simp
  have mode: "live_mode st1 = Blocking" if "r1 = HandedOver"
    using tail that by auto
  from main_switch_rest [OF bh mode run] obtain rest where
    tr: "tr = trace st1 @ rest" and relay: "list_all relay_event rest"
    and clean: "r1 \<noteq> HandedOver \<longrightarrow> list_all cleanup_event rest"
    and unc: "\<forall>e. r1 = Uncaught e \<longrightarrow> out = Uncaught e"
    by blast
  from tail consider
      (none) "tail = []" "r1 \<noteq> HandedOver"
    | (handover) chunk t slept where "chunk \<noteq> []" "grace_sleep (sleep_max env) grace = Inr slept"
        "tail = handover_sequence slept chunk t"
    | (rejected) chunk e where "chunk \<noteq> []" "grace_sleep (sleep_max env) grace = Inl e"
        "tail = [LiveRead NonBlocking (Some chunk)]" "r1 = Uncaught e"
    by blast
  then show "\<exists>rounds rest.
        list_all poll_round rounds
      \<and> ((tr = [SetLiveMode NonBlocking, OpenFifo] @ concat rounds @ rest
           \<and> list_all cleanup_event rest)
         \<or> (\<exists>chunk (t::term_env) slept.
               chunk \<noteq> [] \<and> grace_sleep (sleep_max env) grace = Inr slept
             \<and> tr = [SetLiveMode NonBlocking, OpenFifo] @ concat rounds
                    @ [LiveRead NonBlocking (Some chunk)]
                    @ slept
                    @ [Log ''[fifo-switch] live data detected, switching over'',
                       SetLiveMode Blocking]
                    @ (if still_running t then [Killpg Placeholder SIGTERM] else [])
                    @ (if still_running t \<and> group_gone t then []
                       else WaitExit Placeholder
                            # (if wait_expires t then [Killpg Placeholder SIGKILL] else []))
                    @ [ClosePlaceholderStdout, SinkWrite chunk]
                    @ rest
             \<and> list_all relay_event rest)
         \<or> (\<exists>chunk e.
               chunk \<noteq> [] \<and> grace_sleep (sleep_max env) grace = Inl e
             \<and> tr = [SetLiveMode NonBlocking, OpenFifo] @ concat rounds
                    @ [LiveRead NonBlocking (Some chunk)] @ rest
             \<and> list_all cleanup_event rest \<and> out = Uncaught e))"
  proof cases
    case none
    with tr t1 clean have "tr = [SetLiveMode NonBlocking, OpenFifo] @ concat rounds @ rest
           \<and> list_all cleanup_event rest"
      by simp
    then show ?thesis
      by (intro exI [of _ rounds] exI [of _ rest] conjI rounds) (rule disjI1)
  next
    case (handover chunk t slept)
    have eq: "tr = [SetLiveMode NonBlocking, OpenFifo] @ concat rounds
                    @ [LiveRead NonBlocking (Some chunk)]
                    @ slept
                    @ [Log ''[fifo-switch] live data detected, switching over'',
                       SetLiveMode Blocking]
                    @ (if still_running t then [Killpg Placeholder SIGTERM] else [])
                    @ (if still_running t \<and> group_gone t then []
                       else WaitExit Placeholder
                            # (if wait_expires t then [Killpg Placeholder SIGKILL] else []))
                    @ [ClosePlaceholderStdout, SinkWrite chunk]
                    @ rest"
      unfolding tr t1 handover(3) handover_sequence_def terminate_steps by simp
    have "\<exists>chunk (t::term_env) slept.
               chunk \<noteq> [] \<and> grace_sleep (sleep_max env) grace = Inr slept
             \<and> tr = [SetLiveMode NonBlocking, OpenFifo] @ concat rounds
                    @ [LiveRead NonBlocking (Some chunk)]
                    @ slept
                    @ [Log ''[fifo-switch] live data detected, switching over'',
                       SetLiveMode Blocking]
                    @ (if still_running t then [Killpg Placeholder SIGTERM] else [])
                    @ (if still_running t \<and> group_gone t then []
                       else WaitExit Placeholder
                            # (if wait_expires t then [Killpg Placeholder SIGKILL] else []))
                    @ [ClosePlaceholderStdout, SinkWrite chunk]
                    @ rest
             \<and> list_all relay_event rest"
      by (rule exI [of _ chunk], rule exI [of _ t], rule exI [of _ slept])
         (simp only: handover(1,2) relay eq [symmetric] simp_thms)
    then show ?thesis
      by (intro exI [of _ rounds] exI [of _ rest] conjI rounds) (rule disjI2, rule disjI1)
  next
    case (rejected chunk e)
    with tr t1 clean unc
    have eq: "tr = [SetLiveMode NonBlocking, OpenFifo] @ concat rounds
                    @ [LiveRead NonBlocking (Some chunk)] @ rest"
      "list_all cleanup_event rest" "out = Uncaught e"
      by simp_all
    have "\<exists>chunk e.
               chunk \<noteq> [] \<and> grace_sleep (sleep_max env) grace = Inl e
             \<and> tr = [SetLiveMode NonBlocking, OpenFifo] @ concat rounds
                    @ [LiveRead NonBlocking (Some chunk)] @ rest
             \<and> list_all cleanup_event rest \<and> out = Uncaught e"
      by (rule exI [of _ chunk], rule exI [of _ e])
         (simp only: rejected(1,2) eq(2,3) eq(1) [symmetric] simp_thms)
    then show ?thesis
      by (intro exI [of _ rounds] exI [of _ rest] conjI rounds) (rule disjI2, rule disjI2)
  qed
next
  let ?st0 = "\<lparr>live_mode = NonBlocking, last_placeholder_activity = start_clock env,
               trace = [SetLiveMode NonBlocking, OpenFifo]\<rparr>"
  show "\<forall>pre t post chunk.
         ticks env = pre @ t # post \<and> list_all quiet_tick pre
         \<and> \<not> live_exited t \<and> live_data t = Some chunk \<and> chunk \<noteq> [] \<longrightarrow>
         (\<exists>rounds rest.
            list_all2 round_for pre rounds
          \<and> (case grace_sleep (sleep_max env) grace of
                Inr slept \<Rightarrow>
                  tr = [SetLiveMode NonBlocking, OpenFifo] @ concat rounds
                       @ [LiveRead NonBlocking (Some chunk)]
                       @ slept
                       @ [Log ''[fifo-switch] live data detected, switching over'',
                          SetLiveMode Blocking]
                       @ (if still_running (handover_term t)
                          then [Killpg Placeholder SIGTERM] else [])
                       @ (if still_running (handover_term t) \<and> group_gone (handover_term t)
                          then []
                          else WaitExit Placeholder
                               # (if wait_expires (handover_term t)
                                  then [Killpg Placeholder SIGKILL] else []))
                       @ [ClosePlaceholderStdout, SinkWrite chunk]
                       @ rest
                  \<and> list_all relay_event rest
              | Inl e \<Rightarrow>
                  tr = [SetLiveMode NonBlocking, OpenFifo] @ concat rounds
                       @ [LiveRead NonBlocking (Some chunk)] @ rest
                  \<and> list_all cleanup_event rest \<and> out = Uncaught e))"
  proof (intro allI impI)
    fix pre :: "tick list" and t :: tick and post :: "tick list" and chunk :: bytes
    assume h: "ticks env = pre @ t # post \<and> list_all quiet_tick pre
         \<and> \<not> live_exited t \<and> live_data t = Some chunk \<and> chunk \<noteq> []"
    then have ts: "ticks env = pre @ t # post" and q: "list_all quiet_tick pre"
      and alive: "\<not> live_exited t" and data: "live_data t = Some chunk" and ne: "chunk \<noteq> []"
      by simp_all
    obtain st1 r1 where
      bh: "before_handover (sleep_max env) grace ?st0 (ticks env) = (st1, r1)"
      by (cases "before_handover (sleep_max env) grace ?st0 (ticks env)")
    have m0: "live_mode ?st0 = NonBlocking" by simp
    from before_handover_run [OF m0 q alive data ne bh [unfolded ts]] obtain rounds where
      rs: "list_all2 round_for pre rounds"
      and c: "case grace_sleep (sleep_max env) grace of
              Inr slept \<Rightarrow>
                trace st1 = trace ?st0 @ concat rounds
                            @ handover_sequence slept chunk (handover_term t)
                \<and> live_mode st1 = Blocking
                \<and> r1 = (if write_fails t then SinkGone else HandedOver)
            | Inl e \<Rightarrow>
                trace st1 = trace ?st0 @ concat rounds @ [LiveRead NonBlocking (Some chunk)]
                \<and> live_mode st1 = NonBlocking \<and> r1 = Uncaught e"
      by blast
    have mode: "live_mode st1 = Blocking" if "r1 = HandedOver"
      using c that by (cases "grace_sleep (sleep_max env) grace") auto
    from main_switch_rest [OF bh mode run] obtain rest where
      tr: "tr = trace st1 @ rest" and relay: "list_all relay_event rest"
      and clean: "r1 \<noteq> HandedOver \<longrightarrow> list_all cleanup_event rest"
      and unc: "\<forall>e. r1 = Uncaught e \<longrightarrow> out = Uncaught e"
      by blast
    show "\<exists>rounds rest.
            list_all2 round_for pre rounds
          \<and> (case grace_sleep (sleep_max env) grace of
                Inr slept \<Rightarrow>
                  tr = [SetLiveMode NonBlocking, OpenFifo] @ concat rounds
                       @ [LiveRead NonBlocking (Some chunk)]
                       @ slept
                       @ [Log ''[fifo-switch] live data detected, switching over'',
                          SetLiveMode Blocking]
                       @ (if still_running (handover_term t)
                          then [Killpg Placeholder SIGTERM] else [])
                       @ (if still_running (handover_term t) \<and> group_gone (handover_term t)
                          then []
                          else WaitExit Placeholder
                               # (if wait_expires (handover_term t)
                                  then [Killpg Placeholder SIGKILL] else []))
                       @ [ClosePlaceholderStdout, SinkWrite chunk]
                       @ rest
                  \<and> list_all relay_event rest
              | Inl e \<Rightarrow>
                  tr = [SetLiveMode NonBlocking, OpenFifo] @ concat rounds
                       @ [LiveRead NonBlocking (Some chunk)] @ rest
                  \<and> list_all cleanup_event rest \<and> out = Uncaught e)"
    proof (cases "grace_sleep (sleep_max env) grace")
      case (Inl e)
      with c tr clean unc rs show ?thesis
        by (intro exI [of _ rounds] exI [of _ rest]) simp
    next
      case (Inr slept)
      with c have "trace st1 = [SetLiveMode NonBlocking, OpenFifo] @ concat rounds
                            @ handover_sequence slept chunk (handover_term t)"
        by simp
      then have "tr = [SetLiveMode NonBlocking, OpenFifo] @ concat rounds
                       @ [LiveRead NonBlocking (Some chunk)]
                       @ slept
                       @ [Log ''[fifo-switch] live data detected, switching over'',
                          SetLiveMode Blocking]
                       @ (if still_running (handover_term t)
                          then [Killpg Placeholder SIGTERM] else [])
                       @ (if still_running (handover_term t) \<and> group_gone (handover_term t)
                          then []
                          else WaitExit Placeholder
                               # (if wait_expires (handover_term t)
                                  then [Killpg Placeholder SIGKILL] else []))
                       @ [ClosePlaceholderStdout, SinkWrite chunk]
                       @ rest"
        unfolding tr handover_sequence_def terminate_steps by simp
      with Inr rs relay show ?thesis
        by (intro exI [of _ rounds] exI [of _ rest]) simp
    qed
  qed
qed

theorem C6_handover_order_witness:
  "main_switch (Finite 1) sample_switch_env =
     ([SetLiveMode NonBlocking, OpenFifo,
       LiveRead NonBlocking None, PlaceholderRead [0x47, 0x01], SinkWrite [0x47, 0x01],
       LiveRead NonBlocking None, PlaceholderRead [],
       LiveRead NonBlocking (Some [0x47, 0x02]), Sleep 1,
       Log ''[fifo-switch] live data detected, switching over'', SetLiveMode Blocking,
       Killpg Placeholder SIGTERM, WaitExit Placeholder, Killpg Placeholder SIGKILL,
       ClosePlaceholderStdout, SinkWrite [0x47, 0x02],
       LiveRead Blocking (Some [0x47, 0x04]), SinkWrite [0x47, 0x04],
       LiveRead Blocking (Some []),
       WaitExit Placeholder, WaitExit Live, CloseFifo], Finished)
   \<and> (\<exists>rounds rest.
          list_all2 round_for (take 2 (ticks sample_switch_env)) rounds
        \<and> fst (main_switch (Finite 1) sample_switch_env) =
             [SetLiveMode NonBlocking, OpenFifo] @ concat rounds
             @ [LiveRead NonBlocking (Some [0x47, 0x02]), Sleep 1,
                Log ''[fifo-switch] live data detected, switching over'', SetLiveMode Blocking,
                Killpg Placeholder SIGTERM, WaitExit Placeholder, Killpg Placeholder SIGKILL,
                ClosePlaceholderStdout, SinkWrite [0x47, 0x02]]
             @ rest
        \<and> list_all relay_event rest)"
proof -
  define tr where
    "tr = [SetLiveMode NonBlocking, OpenFifo,
       LiveRead NonBlocking None, PlaceholderRead [0x47, 0x01], SinkWrite [0x47, 0x01],
       LiveRead NonBlocking None, PlaceholderRead [],
       LiveRead NonBlocking (Some [0x47, 0x02]), Sleep 1,
       Log ''[fifo-switch] live data detected, switching over'', SetLiveMode Blocking,
       Killpg Placeholder SIGTERM, WaitExit Placeholder, Killpg Placeholder SIGKILL,
       ClosePlaceholderStdout, SinkWrite [0x47, 0x02],
       LiveRead Blocking (Some [0x47, 0x04]), SinkWrite [0x47, 0x04],
       LiveRead Blocking (Some []),
       WaitExit Placeholder, WaitExit Live, CloseFifo]"
  define pre where "pre = take 2 (ticks sample_switch_env)"
  define t where "t = ticks sample_switch_env ! 2"
  have run: "main_switch (Finite 1) sample_switch_env = (tr, Finished)"
    by (simp add: main_switch_def sample_switch_env_def quiet_def stubborn_def emit_def
        terminate_def finally_block_def switch_over_def float_truth_def time_sleep_def
        Let_def tr_def)
  have slept: "grace_sleep (sleep_max sample_switch_env) (Finite 1) = Inr [Sleep 1]"
    by (simp add: grace_sleep_def float_truth_def time_sleep_def sample_switch_env_def)
  have hyp: "ticks sample_switch_env = pre @ t # [] \<and> list_all quiet_tick pre
         \<and> \<not> live_exited t \<and> live_data t = Some [0x47, 0x02] \<and> [0x47, 0x02] \<noteq> ([]::bytes)"
    by (simp add: pre_def t_def sample_switch_env_def quiet_tick_def empty_read_def)
  have stub: "still_running (handover_term t)" "\<not> group_gone (handover_term t)"
    "wait_expires (handover_term t)"
    by (simp_all add: t_def sample_switch_env_def stubborn_def)
  from C6_handover_order [OF run, THEN conjunct2, THEN spec, THEN spec, THEN spec, THEN spec,
      THEN mp, OF hyp]
  obtain rounds rest where
    rs: "list_all2 round_for pre rounds"
    and c: "case grace_sleep (sleep_max sample_switch_env) (Finite 1) of
                Inr slept \<Rightarrow>
                  tr = [SetLiveMode NonBlocking, OpenFifo] @ concat rounds
                       @ [LiveRead NonBlocking (Some [0x47, 0x02])]
                       @ slept
                       @ [Log ''[fifo-switch] live data detected, switching over'',
                          SetLiveMode Blocking]
                       @ (if still_running (handover_term t)
                          then [Killpg Placeholder SIGTERM] else [])
                       @ (if still_running (handover_term t) \<and> group_gone (handover_term t)
                          then []
                          else WaitExit Placeholder
                               # (if wait_expires (handover_term t)
                                  then [Killpg Placeholder SIGKILL] else []))
                       @ [ClosePlaceholderStdout, SinkWrite [0x47, 0x02]]
                       @ rest
                  \<and> list_all relay_event rest
              | Inl e \<Rightarrow>
                  tr = [SetLiveMode NonBlocking, OpenFifo] @ concat rounds
                       @ [LiveRead NonBlocking (Some [0x47, 0x02])] @ rest
                  \<and> list_all cleanup_event rest \<and> Finished = Uncaught e"
    by (elim exE conjE) (rule that, assumption+)
  from c have "tr = [SetLiveMode NonBlocking, OpenFifo] @ concat rounds
             @ [LiveRead NonBlocking (Some [0x47, 0x02]), Sleep 1,
                Log ''[fifo-switch] live data detected, switching over'', SetLiveMode Blocking,
                Killpg Placeholder SIGTERM, WaitExit Placeholder, Killpg Placeholder SIGKILL,
                ClosePlaceholderStdout, SinkWrite [0x47, 0x02]]
             @ rest"
    and "list_all relay_event rest"
    by (simp_all add: slept stub)
  with rs show ?thesis
    unfolding tr_def [symmetric] pre_def [symmetric] run
    by (intro conjI exI [of _ rounds] exI [of _ rest]) simp_all
qed

text \<open>
  C6. The claim, read for every value of \<open>--switch-grace\<close>: once a non-empty live chunk
  is read, the live pipe is set back to blocking mode, the placeholder is terminated and
  the chunk is written to the sink. With a grace of \<open>-1\<close> the call \<open>time.sleep(-1)\<close>
  between the read and the handover raises \<open>ValueError\<close>, and with an infinite grace
  \<open>OverflowError\<close>: the chunk that was read is never written, the live pipe is never set
  back to blocking mode, and the run ends in the clean-up with the exception uncaught.
\<close>

theorem C6_rejected_grace_counterexample:
  "main_switch (Finite (- 1)) sample_switch_env = (rejected_run, Uncaught ValueError)
   \<and> main_switch PosInf sample_switch_env = (rejected_run, Uncaught OverflowError)
   \<and> LiveRead NonBlocking (Some [0x47, 0x02]) \<in> set rejected_run
   \<and> SinkWrite [0x47, 0x02] \<notin> set rejected_run
   \<and> SetLiveMode Blocking \<notin> set rejected_run"
  by (simp add: main_switch_def sample_switch_env_def quiet_def stubborn_def emit_def
      terminate_def finally_block_def switch_over_def float_truth_def time_sleep_def
      Let_def rejected_run_def)

end
